theory Spec2Isabelle
  imports Main "HOL-Library.List_Lexorder" "HOL-Library.Char_ord"
begin

section \<open>Data model (package scanner, package config)\<close>

text \<open>
  Errors are values. \<open>Canceled\<close> and \<open>DeadlineExceeded\<close> are the two sentinel errors of
  Go's \<open>context\<close> package; \<open>OSError\<close> stands for any error value returned by the \<open>os\<close>
  package or by a foreign \<open>context.Context\<close> implementation. The remaining constructors are
  the four \<open>fmt.Errorf\<close> calls of \<open>ScanDirectory\<close>; \<open>%w\<close> wrapping keeps the wrapped error.
\<close>

datatype go_error =
    Canceled
  | DeadlineExceeded
  | OSError string
  | ErrPathEmpty
  | ErrStat string go_error
  | ErrNotDir string
  | ErrScan go_error

record Config =
  MaxDepth :: int
  ShowHidden :: bool
  SortDirs :: bool
  ShowSize :: bool
  ConcurrentOps :: int

text \<open>\<open>DefaultConfig()\<close> of package config.\<close>

definition DefaultConfig :: Config where
  "DefaultConfig =
     \<lparr>MaxDepth = 15, ShowHidden = False, SortDirs = True, ShowSize = False, ConcurrentOps = 5\<rparr>"

text \<open>
  \<open>TreeNode\<close>: the owned \<open>Children\<close> slice is a list. The non-owning \<open>Parent\<close> back pointer
  is never read by the scanner or the renderer and is left out.
\<close>

datatype TreeNode =
  TreeNode (Path: string) (Name: string) (IsDir: bool) (Children: "TreeNode list")

record ScanResult =
  RootPath :: string
  TreeText :: string
  NodeCount :: int
  Error :: "go_error option"
  Root :: TreeNode

text \<open>An \<open>os.DirEntry\<close>, as far as the scanner reads it: its methods \<open>Name()\<close> and \<open>IsDir()\<close>.\<close>

record DirEntry =
  de_Name :: string
  de_IsDir :: bool

text \<open>
  The operating system as the scanner sees it: \<open>os.Stat\<close> (\<open>Inr b\<close> is an info whose
  \<open>IsDir()\<close> is \<open>b\<close>), \<open>os.ReadDir\<close>, \<open>filepath.Join\<close> on two elements and
  \<open>filepath.Base\<close>. The file system is taken to stay unchanged while one scan runs.
\<close>

record env =
  Stat :: "string \<Rightarrow> go_error + bool"
  ReadDir :: "string \<Rightarrow> go_error + DirEntry list"
  Join :: "string \<Rightarrow> string \<Rightarrow> string"
  Base :: "string \<Rightarrow> string"

text \<open>
  The \<open>context.Context\<close>. The scanner observes it only through the non-blocking
  \<open>select\<close> on \<open>ctx.Done()\<close>, so a run is determined by the index of the first poll that
  finds the channel closed: \<open>DoneAt = Some k\<close> says that the polls numbered \<open>k, k+1, ...\<close>
  find it closed (a closed channel stays closed), \<open>None\<close> that it is never closed.
  \<open>Err\<close> is what \<open>ctx.Err()\<close> returns once it is closed. The number of polls made so far is
  threaded through the scanner as explicit state.
\<close>

record Context =
  DoneAt :: "nat option"
  Err :: go_error

definition ctx_Done :: "Context \<Rightarrow> nat \<Rightarrow> bool" where
  "ctx_Done ctx t = (case DoneAt ctx of None \<Rightarrow> False | Some k \<Rightarrow> k \<le> t)"

section \<open>String helpers (package strings)\<close>

definition HasPrefix :: "string \<Rightarrow> string \<Rightarrow> bool" where
  "HasPrefix s pre = (length pre \<le> length s \<and> take (length pre) s = pre)"

fun Contains :: "string \<Rightarrow> string \<Rightarrow> bool" where
  "Contains [] sub = (sub = [])"
| "Contains (c # cs) sub = (HasPrefix (c # cs) sub \<or> Contains cs sub)"

section \<open>The scanner\<close>

definition problematicPaths :: "string list" where
  "problematicPaths =
    [''System Volume Information'',
     ''$Recycle.Bin'',
     ''$WINDOWS.~BT'',
     ''Recovery'',
     ''ProgramData'' @ [CHR 0x5C] @ ''Microsoft'' @ [CHR 0x5C] @ ''Windows Defender'',
     ''Windows'' @ [CHR 0x5C] @ ''System32'' @ [CHR 0x5C] @ ''config'']"

fun containsAny :: "string \<Rightarrow> string list \<Rightarrow> bool" where
  "containsAny path [] = False"
| "containsAny path (problematic # rest) =
     (if Contains path problematic then True else containsAny path rest)"

definition isProblematicPath :: "string \<Rightarrow> bool" where
  "isProblematicPath path = containsAny path problematicPaths"

definition filterHiddenEntries :: "DirEntry list \<Rightarrow> DirEntry list" where
  "filterHiddenEntries entries = filter (\<lambda>entry. \<not> HasPrefix (de_Name entry) ''.'') entries"

text \<open>The \<open>less\<close> closure of \<open>sortEntries\<close>; \<open><\<close> on strings is byte-wise lexicographic.\<close>

definition entryLess :: "DirEntry \<Rightarrow> DirEntry \<Rightarrow> bool" where
  "entryLess a b = (if de_IsDir a \<noteq> de_IsDir b then de_IsDir a else de_Name a < de_Name b)"

text \<open>
  \<open>sort.Slice\<close> of Go's standard library, modelled by insertion sort. \<open>sort.Slice\<close> is not
  stable, but \<open>entryLess\<close> compares every field the scanner reads of an entry, so two
  entries it leaves unordered are equal here and every correct sort gives the same list.
\<close>

fun insertBy :: "('a \<Rightarrow> 'a \<Rightarrow> bool) \<Rightarrow> 'a \<Rightarrow> 'a list \<Rightarrow> 'a list" where
  "insertBy lessFn x [] = [x]"
| "insertBy lessFn x (y # ys) = (if lessFn y x then y # insertBy lessFn x ys else x # y # ys)"

definition sort_Slice :: "('a \<Rightarrow> 'a \<Rightarrow> bool) \<Rightarrow> 'a list \<Rightarrow> 'a list" where
  "sort_Slice lessFn xs = foldr (insertBy lessFn) xs []"

definition sortEntries :: "DirEntry list \<Rightarrow> DirEntry list" where
  "sortEntries entries = sort_Slice entryLess entries"

text \<open>The size cap of \<open>scanNode\<close> (source lines 114-118).\<close>

definition limitEntries :: "DirEntry list \<Rightarrow> DirEntry list" where
  "limitEntries entries = (if length entries > 10000 then take 1000 entries else entries)"

text \<open>
  What \<open>scanNode\<close> does to the listing before its loop (source lines 114-128): the size
  cap, then the hidden filter unless \<open>ShowHidden\<close>, then the sort if \<open>SortDirs\<close>.
\<close>

definition prepareEntries :: "Config \<Rightarrow> DirEntry list \<Rightarrow> DirEntry list" where
  "prepareEntries cfg entries =
     (let entries = limitEntries entries;
          entries = (if \<not> ShowHidden cfg then filterHiddenEntries entries else entries);
          entries = (if SortDirs cfg then sortEntries entries else entries)
      in entries)"

definition appendChild :: "TreeNode \<Rightarrow> TreeNode \<Rightarrow> TreeNode" where
  "appendChild node child =
     TreeNode (Path node) (Name node) (IsDir node) (Children node @ [child])"

text \<open>
  \<open>scanNode\<close> returns the poll counter, the node with the children appended to it, the count
  and the error. \<open>scanEntries\<close> is its \<open>for\<close> loop over the entries, \<open>nodeCount\<close> the loop's
  running count. The source appends the child to \<open>node.Children\<close> first and then fills the
  child in place through the pointer; here the child is appended as the recursive call
  leaves it, which is the same tree. The \<open>time.Sleep\<close> every 100 entries and the log
  lines have no effect on the result and are left out.
\<close>

function scanNode ::
    "env \<Rightarrow> Config \<Rightarrow> Context \<Rightarrow> nat \<Rightarrow> TreeNode \<Rightarrow> int
      \<Rightarrow> nat \<times> TreeNode \<times> int \<times> go_error option"
  and scanEntries ::
    "env \<Rightarrow> Config \<Rightarrow> Context \<Rightarrow> nat \<Rightarrow> TreeNode \<Rightarrow> int \<Rightarrow> DirEntry list \<Rightarrow> int
      \<Rightarrow> nat \<times> TreeNode \<times> int \<times> go_error option"
where
  "scanNode os cfg ctx t node depth =
     (if ctx_Done ctx t then (Suc t, node, 0, Some (Err ctx))
      else if MaxDepth cfg \<ge> 0 \<and> depth > MaxDepth cfg then (Suc t, node, 0, None)
      else if depth > 50 then (Suc t, node, 1, None)
      else (case ReadDir os (Path node) of
              Inl err \<Rightarrow> (Suc t, node, 1, None)
            | Inr entries \<Rightarrow>
                scanEntries os cfg ctx (Suc t) node depth (prepareEntries cfg entries) 1))"
| "scanEntries os cfg ctx t node depth [] nodeCount = (t, node, nodeCount, None)"
| "scanEntries os cfg ctx t node depth (entry # rest) nodeCount =
     (if ctx_Done ctx t then (Suc t, node, nodeCount, Some (Err ctx))
      else if isProblematicPath (Join os (Path node) (de_Name entry))
        then scanEntries os cfg ctx (Suc t) node depth rest nodeCount
      else if de_IsDir entry then
        (case scanNode os cfg ctx (Suc t)
                (TreeNode (Join os (Path node) (de_Name entry)) (de_Name entry) True [])
                (depth + 1) of
           (t', child, childCount, err) \<Rightarrow>
             (case err of
                Some e \<Rightarrow>
                  if e = Canceled \<or> e = DeadlineExceeded
                  then (t', appendChild node child, nodeCount, Some e)
                  else scanEntries os cfg ctx t' (appendChild node child) depth rest
                         (nodeCount + childCount)
              | None \<Rightarrow>
                  scanEntries os cfg ctx t' (appendChild node child) depth rest
                    (nodeCount + childCount)))
      else scanEntries os cfg ctx (Suc t)
             (appendChild node
               (TreeNode (Join os (Path node) (de_Name entry)) (de_Name entry) False []))
             depth rest (nodeCount + 1))"
  by pat_completeness auto
termination
  by (relation "inv_image (less_than <*lex*> less_than)
        (\<lambda>x. case x of
            Inl (os, cfg, ctx, t, node, depth) \<Rightarrow>
              (if depth > 50 then 0 else 2 * nat (51 - depth) + 2, 0)
          | Inr (os, cfg, ctx, t, node, depth, entries, nodeCount) \<Rightarrow>
              (2 * nat (51 - depth) + 1, length entries))")
     auto

declare scanNode.simps [simp del] scanEntries.simps [simp del]

definition ScanDirectory :: "env \<Rightarrow> Config \<Rightarrow> Context \<Rightarrow> string \<Rightarrow> go_error + ScanResult" where
  "ScanDirectory os cfg ctx path =
     (if path = [] then Inl ErrPathEmpty
      else (case Stat os path of
              Inl err \<Rightarrow> Inl (ErrStat path err)
            | Inr isDir \<Rightarrow>
                if \<not> isDir then Inl (ErrNotDir path)
                else (case scanNode os cfg ctx 0 (TreeNode path (Base os path) True []) 0 of
                        (t, root, nodeCount, err) \<Rightarrow>
                          (case err of
                             Some e \<Rightarrow> Inl (ErrScan e)
                           | None \<Rightarrow>
                               Inr \<lparr>RootPath = path, TreeText = [], NodeCount = nodeCount,
                                    Error = None, Root = root\<rparr>))))"

section \<open>The renderer (package renderer)\<close>

text \<open>The icons and the box-drawing strings, as the bytes of their UTF-8 encoding.\<close>

definition folderIcon :: string where
  "folderIcon = [CHR 0xF0, CHR 0x9F, CHR 0x93, CHR 0x81]"

definition fileIcon :: string where
  "fileIcon = [CHR 0xF0, CHR 0x9F, CHR 0x93, CHR 0x84]"

definition treeBranch :: string where
  "treeBranch = [CHR 0xE2, CHR 0x94, CHR 0x9C, CHR 0xE2, CHR 0x94, CHR 0x80, CHR 0xE2, CHR 0x94, CHR 0x80]"

definition treeLastBranch :: string where
  "treeLastBranch = [CHR 0xE2, CHR 0x94, CHR 0x94, CHR 0xE2, CHR 0x94, CHR 0x80, CHR 0xE2, CHR 0x94, CHR 0x80]"

definition treeSpacing :: string where
  "treeSpacing = ''    ''"

definition treeConnection :: string where
  "treeConnection = [CHR 0xE2, CHR 0x94, CHR 0x82] @ ''   ''"

text \<open>
  The \<open>strings.Builder\<close> is the text written so far, passed in and returned.
  \<open>renderChildren\<close> is the \<open>for\<close> loop of \<open>renderNode\<close>: \<open>i\<close> is the loop index and \<open>n\<close> is
  \<open>len(node.Children)\<close>.
\<close>

fun renderNode :: "string \<Rightarrow> TreeNode \<Rightarrow> string \<Rightarrow> bool \<Rightarrow> string"
  and renderChildren :: "string \<Rightarrow> TreeNode list \<Rightarrow> nat \<Rightarrow> nat \<Rightarrow> string \<Rightarrow> bool \<Rightarrow> string"
where
  "renderNode builder (TreeNode path name isDir children) prefix isRoot =
     renderChildren
       (if \<not> isRoot
        then builder @ (if isDir then folderIcon else fileIcon) @ '' '' @
               (if isDir then name @ ''/'' else name) @ [CHR 0x0A]
        else builder)
       children 0 (length children) prefix isRoot"
| "renderChildren builder [] i n prefix isRoot = builder"
| "renderChildren builder (child # rest) i n prefix isRoot =
     renderChildren
       (if isRoot \<and> i = 0 then renderNode (builder @ prefix @ []) child [] False
        else if int i = int n - 1
          then renderNode (builder @ prefix @ (treeLastBranch @ '' '')) child
                 (prefix @ treeSpacing) False
        else renderNode (builder @ prefix @ (treeBranch @ '' '')) child
               (prefix @ treeConnection) False)
       rest (Suc i) n prefix isRoot"

definition RenderTree :: "TreeNode option \<Rightarrow> string" where
  "RenderTree root =
     (case root of
        None \<Rightarrow> []
      | Some r \<Rightarrow>
          renderNode (''File Tree for: '' @ Path r @ [CHR 0x0A] @
                      replicate 50 (CHR ''='') @ [CHR 0x0A, CHR 0x0A])
            r [] True)"

section \<open>\<open>filepath.Join\<close> on Unix\<close>

text \<open>
  A model of \<open>filepath.Join\<close> and \<open>filepath.Clean\<close> of Go's standard library for Unix
  (separator \<open>/\<close>, no volume names), written from their documentation: \<open>Join\<close> joins the
  elements from the first non-empty one on with the separator and cleans the result;
  \<open>Clean\<close> drops empty and \<open>.\<close> elements, cancels an inner \<open>..\<close> against the element before
  it, drops \<open>..\<close> at the start of a rooted path and returns \<open>.\<close> for an empty result.
\<close>

fun splitSep :: "string \<Rightarrow> string list" where
  "splitSep [] = [[]]"
| "splitSep (c # cs) =
     (if c = CHR ''/'' then [] # splitSep cs
      else (case splitSep cs of [] \<Rightarrow> [[c]] | w # ws \<Rightarrow> (c # w) # ws))"

fun joinSep :: "string list \<Rightarrow> string" where
  "joinSep [] = []"
| "joinSep [e] = e"
| "joinSep (e # es) = e @ ''/'' @ joinSep es"

text \<open>\<open>out\<close> holds the elements written so far, the last one first.\<close>

fun cleanElems :: "bool \<Rightarrow> string list \<Rightarrow> string list \<Rightarrow> string list" where
  "cleanElems rooted out [] = rev out"
| "cleanElems rooted out (e # es) =
     (if e = [] \<or> e = ''.'' then cleanElems rooted out es
      else if e = ''..'' then
        (case out of
           [] \<Rightarrow> if rooted then cleanElems rooted [] es else cleanElems rooted [''..''] es
         | e' # out' \<Rightarrow>
             if e' = ''..'' then cleanElems rooted (''..'' # out) es
             else cleanElems rooted out' es)
      else cleanElems rooted (e # out) es)"

definition Clean :: "string \<Rightarrow> string" where
  "Clean path =
     (if path = [] then ''.''
      else if hd path = CHR ''/''
        then ''/'' @ joinSep (cleanElems True [] (splitSep path))
      else if cleanElems False [] (splitSep path) = [] then ''.''
      else joinSep (cleanElems False [] (splitSep path)))"

definition unix_Join :: "string \<Rightarrow> string \<Rightarrow> string" where
  "unix_Join a b =
     (if a \<noteq> [] then Clean (a @ ''/'' @ b)
      else if b \<noteq> [] then Clean b
      else [])"

definition unix_Base :: "string \<Rightarrow> string" where
  "unix_Base path =
     (if path = [] then ''.''
      else (case filter (\<lambda>e. e \<noteq> []) (splitSep path) of
              [] \<Rightarrow> ''/''
            | e # es \<Rightarrow> last (e # es)))"

section \<open>Notions the properties are stated with\<close>

text \<open>The components of what \<open>scanNode\<close> and \<open>scanEntries\<close> return.\<close>

definition resPolls :: "nat \<times> TreeNode \<times> int \<times> go_error option \<Rightarrow> nat" where
  "resPolls r = fst r"

definition resNode :: "nat \<times> TreeNode \<times> int \<times> go_error option \<Rightarrow> TreeNode" where
  "resNode r = fst (snd r)"

definition resCount :: "nat \<times> TreeNode \<times> int \<times> go_error option \<Rightarrow> int" where
  "resCount r = fst (snd (snd r))"

definition resErr :: "nat \<times> TreeNode \<times> int \<times> go_error option \<Rightarrow> go_error option" where
  "resErr r = snd (snd (snd r))"

text \<open>The nodes reachable from a node, itself included, and their number.\<close>

fun nodes :: "TreeNode \<Rightarrow> TreeNode list" where
  "nodes (TreeNode path name isDir children) =
     TreeNode path name isDir children # concat (map nodes children)"

fun countNodes :: "TreeNode \<Rightarrow> nat" where
  "countNodes (TreeNode path name isDir children) = 1 + sum_list (map countNodes children)"


text \<open>\<open>treeAll P\<close>: the children sequence of every node of the tree satisfies \<open>P\<close>.\<close>

fun treeAll :: "(TreeNode list \<Rightarrow> bool) \<Rightarrow> TreeNode \<Rightarrow> bool" where
  "treeAll P (TreeNode path name isDir children) = (P children \<and> list_all (treeAll P) children)"

definition noProblematic :: "TreeNode list \<Rightarrow> bool" where
  "noProblematic cs = list_all (\<lambda>c. \<not> isProblematicPath (Path c)) cs"

text \<open>
  The order on siblings that directories-first sorting promises: no file before a
  directory, and names non-decreasing (byte-wise) among directories and among files.
\<close>

definition childOrder :: "TreeNode \<Rightarrow> TreeNode \<Rightarrow> bool" where
  "childOrder a b = ((IsDir a \<or> \<not> IsDir b) \<and> (IsDir a \<noteq> IsDir b \<or> Name a \<le> Name b))"

text \<open>
  The renderer's line for a node, and the connector and the descendants' prefix of the
  child with index \<open>i\<close> among \<open>n\<close> siblings. \<open>nextPrefix_uniform\<close> extends the prefix for
  every child alike; \<open>nextPrefix\<close> hands the empty prefix to the first child of the root.
\<close>

definition nodeLine :: "TreeNode \<Rightarrow> string" where
  "nodeLine node =
     (if IsDir node then folderIcon else fileIcon) @ '' '' @
     (if IsDir node then Name node @ ''/'' else Name node) @ [CHR 0x0A]"

definition connector :: "bool \<Rightarrow> nat \<Rightarrow> nat \<Rightarrow> string" where
  "connector isRoot i n =
     (if isRoot \<and> i = 0 then []
      else if Suc i = n then treeLastBranch @ '' ''
      else treeBranch @ '' '')"

definition nextPrefix_uniform :: "string \<Rightarrow> nat \<Rightarrow> nat \<Rightarrow> string" where
  "nextPrefix_uniform prefix i n =
     (if Suc i = n then prefix @ treeSpacing else prefix @ treeConnection)"

definition nextPrefix :: "bool \<Rightarrow> string \<Rightarrow> nat \<Rightarrow> nat \<Rightarrow> string" where
  "nextPrefix isRoot prefix i n =
     (if isRoot \<and> i = 0 then [] else nextPrefix_uniform prefix i n)"

text \<open>
  A context that is like \<open>c\<close> but done from poll \<open>k\<close> on, and one that is like \<open>c\<close>
  but never done.
\<close>

definition cancelledAt :: "Context \<Rightarrow> nat \<Rightarrow> Context" where
  "cancelledAt c k = c\<lparr>DoneAt := Some k\<rparr>"

definition neverDone :: "Context \<Rightarrow> Context" where
  "neverDone c = c\<lparr>DoneAt := None\<rparr>"

text \<open>
  The file system in which, of every directory with more than 10000 entries, only the
  first 1000 exist, and every other directory is as it is.
\<close>

definition firstThousand :: "env \<Rightarrow> env" where
  "firstThousand os =
     os\<lparr>ReadDir := \<lambda>p. case ReadDir os p of
                          Inl err \<Rightarrow> Inl err
                        | Inr entries \<Rightarrow>
                            Inr (if 10000 < length entries then take 1000 entries else entries)\<rparr>"



section \<open>Example inputs\<close>

definition ctx_Background :: Context where
  "ctx_Background = \<lparr>DoneAt = None, Err = Canceled\<rparr>"

definition fileEntry :: "string \<Rightarrow> DirEntry" where
  "fileEntry name = \<lparr>de_Name = name, de_IsDir = False\<rparr>"

definition dirEntry :: "string \<Rightarrow> DirEntry" where
  "dirEntry name = \<lparr>de_Name = name, de_IsDir = True\<rparr>"

text \<open>
  A small Unix file system, seen from its working directory: \<open>root\<close> holds the file
  \<open>a.log\<close> and the directory \<open>b\<close> with the files \<open>z.txt\<close> and \<open>a.txt\<close>; \<open>top\<close> holds the
  file \<open>f\<close> and the directory \<open>locked\<close>, which cannot be listed; \<open>Recovery\<close> holds the
  file \<open>notes.txt\<close> and the empty directory \<open>old\<close>; and there is the file \<open>x\<close>.
\<close>

definition demo_ReadDir :: "string \<Rightarrow> go_error + DirEntry list" where
  "demo_ReadDir p =
     (if p = ''root'' then Inr [fileEntry ''a.log'', dirEntry ''b'']
      else if p = ''root/b'' then Inr [fileEntry ''z.txt'', fileEntry ''a.txt'']
      else if p = ''top'' then Inr [fileEntry ''f'', dirEntry ''locked'']
      else if p = ''top/locked'' then Inl (OSError ''permission denied'')
      else if p = ''Recovery'' then Inr [fileEntry ''notes.txt'', dirEntry ''old'']
      else if p = ''Recovery/old'' then Inr []
      else if p = ''Recovery/..'' \<or> p = ''.''
        then Inr [dirEntry ''Recovery'', dirEntry ''root'', dirEntry ''top'', fileEntry ''x'']
      else if p \<in> {''x'', ''root/a.log'', ''root/b/z.txt'', ''root/b/a.txt'', ''top/f'',
                    ''Recovery/notes.txt''}
        then Inl (OSError ''not a directory'')
      else Inl (OSError ''no such file or directory''))"

definition demo_Stat :: "string \<Rightarrow> go_error + bool" where
  "demo_Stat p =
     (if p \<in> {''root'', ''root/b'', ''top'', ''top/locked'', ''Recovery'', ''Recovery/old'',
               ''Recovery/..'', ''.''}
        then Inr True
      else if p \<in> {''x'', ''root/a.log'', ''root/b/z.txt'', ''root/b/a.txt'', ''top/f'',
                    ''Recovery/notes.txt''}
        then Inr False
      else Inl (OSError ''no such file or directory''))"

definition demo_env :: env where
  "demo_env = \<lparr>Stat = demo_Stat, ReadDir = demo_ReadDir, Join = unix_Join, Base = unix_Base\<rparr>"

text \<open>A file system in which every directory holds one directory \<open>d\<close>, without end.\<close>

definition deep_env :: env where
  "deep_env =
     \<lparr>Stat = (\<lambda>p. Inr True), ReadDir = (\<lambda>p. Inr [dirEntry ''d'']),
      Join = unix_Join, Base = unix_Base\<rparr>"



definition cfgDepth0 :: Config where
  "cfgDepth0 =
     \<lparr>MaxDepth = 0, ShowHidden = False, SortDirs = True, ShowSize = False, ConcurrentOps = 5\<rparr>"

text \<open>
  Two large directories. Both list the file \<open>first\<close>, then hidden files \<open>.h\<close>, \<open>.hx\<close>,
  \<open>.hxx\<close>, ... and, last in enumeration order, the file \<open>last\<close>: \<open>big\<close> has 9999 hidden
  files, 10001 entries in all, and \<open>full\<close> has 9998 hidden files, 10000 entries in all.
\<close>

definition hiddenEntries :: "nat \<Rightarrow> DirEntry list" where
  "hiddenEntries n = map (\<lambda>i. fileEntry (''.h'' @ replicate i (CHR ''x''))) [0..<n]"

definition bigListing :: "nat \<Rightarrow> DirEntry list" where
  "bigListing n = fileEntry ''first'' # hiddenEntries n @ [fileEntry ''last'']"

definition big_env :: env where
  "big_env =
     \<lparr>Stat = (\<lambda>p. if p = ''big'' \<or> p = ''full'' then Inr True
                   else Inl (OSError ''no such file or directory'')),
      ReadDir = (\<lambda>p. if p = ''big'' then Inr (bigListing 9999)
                      else if p = ''full'' then Inr (bigListing 9998)
                      else Inl (OSError ''no such file or directory'')),
      Join = unix_Join, Base = unix_Base\<rparr>"

section \<open>Notions used in the proofs\<close>

text \<open>
  A loop invariant \<open>I\<close> over the children built so far and the entries still to come
  gives \<open>P\<close> for the children of every node of the scanned tree.
\<close>

definition loopInv ::
    "env \<Rightarrow> Config \<Rightarrow> (TreeNode list \<Rightarrow> DirEntry list \<Rightarrow> bool) \<Rightarrow> (TreeNode list \<Rightarrow> bool) \<Rightarrow> bool" where
  "loopInv os cfg I P =
     ((\<forall>cs e rest c p. I cs (e # rest) \<and> \<not> isProblematicPath (Join os p (de_Name e)) \<and>
          Path c = Join os p (de_Name e) \<and> Name c = de_Name e \<and> IsDir c = de_IsDir e
          \<longrightarrow> I (cs @ [c]) rest) \<and>
      (\<forall>cs e rest. I cs (e # rest) \<longrightarrow> I cs rest) \<and>
      (\<forall>es. I [] (prepareEntries cfg es)) \<and>
      (\<forall>cs es. I cs es \<longrightarrow> P cs))"

text \<open>
  The invariant of the loop for sorted entries: the children built so far are in order,
  the entries still to come are sorted, and every child built is at most every entry to
  come.
\<close>

definition nodeLeEntry :: "TreeNode \<Rightarrow> DirEntry \<Rightarrow> bool" where
  "nodeLeEntry c e =
     ((IsDir c \<or> \<not> de_IsDir e) \<and> (IsDir c \<noteq> de_IsDir e \<or> Name c \<le> de_Name e))"

definition sortedInv :: "TreeNode list \<Rightarrow> DirEntry list \<Rightarrow> bool" where
  "sortedInv cs es =
     (sorted_wrt childOrder cs \<and> sorted_wrt (\<lambda>a b. \<not> entryLess b a) es \<and>
      list_all (\<lambda>c. list_all (nodeLeEntry c) es) cs)"

text \<open>
  \<open>simulates r\<^sub>0 r t k\<close>: \<open>r\<^sub>0\<close> is what a scan started at poll \<open>t\<close> returns when the context
  is never done, \<open>r\<close> what the same scan returns when the context is done from poll \<open>k\<close>
  on. If the undisturbed scan ends before poll \<open>k\<close> the two agree; otherwise the
  disturbed scan stops at the first poll that finds the context done and returns its
  error.
\<close>

definition simulates ::
    "nat \<times> TreeNode \<times> int \<times> go_error option \<Rightarrow> nat \<times> TreeNode \<times> int \<times> go_error option
      \<Rightarrow> nat \<Rightarrow> nat \<Rightarrow> go_error \<Rightarrow> bool" where
  "simulates r0 r t k e =
     (resErr r0 = None \<and>
      (if resPolls r0 \<le> k then r = r0
       else resPolls r = Suc (max t k) \<and> resErr r = Some e))"

section \<open>The models of the library functions\<close>

lemma HasPrefix_iff: "HasPrefix s sub = (\<exists>vs. s = sub @ vs)"
proof
  assume "HasPrefix s sub"
  then have "s = sub @ drop (length sub) s"
    by (metis HasPrefix_def append_take_drop_id)
  then show "\<exists>vs. s = sub @ vs" ..
next
  assume "\<exists>vs. s = sub @ vs"
  then show "HasPrefix s sub" by (auto simp: HasPrefix_def)
qed

text \<open>\<open>Contains\<close> is the substring test.\<close>

lemma Contains_iff: "Contains s sub = (\<exists>us vs. s = us @ sub @ vs)"
proof (induction s)
  case Nil
  show ?case by auto
next
  case (Cons c cs)
  show ?case
  proof
    assume "Contains (c # cs) sub"
    then consider "HasPrefix (c # cs) sub" | "Contains cs sub" by auto
    then show "\<exists>us vs. c # cs = us @ sub @ vs"
    proof cases
      case 1
      then obtain vs where "c # cs = sub @ vs" by (auto simp: HasPrefix_iff)
      then have "c # cs = [] @ sub @ vs" by simp
      then show ?thesis by blast
    next
      case 2
      with Cons obtain us vs where "cs = us @ sub @ vs" by auto
      then have "c # cs = (c # us) @ sub @ vs" by simp
      then show ?thesis by blast
    qed
  next
    assume "\<exists>us vs. c # cs = us @ sub @ vs"
    then obtain us vs where eq: "c # cs = us @ sub @ vs" by blast
    show "Contains (c # cs) sub"
    proof (cases us)
      case Nil
      with eq have "HasPrefix (c # cs) sub" by (auto simp: HasPrefix_iff)
      then show ?thesis by simp
    next
      case (Cons u us')
      with eq have "cs = us' @ sub @ vs" by simp
      with Cons.IH have "Contains cs sub" by blast
      then show ?thesis by simp
    qed
  qed
qed

text \<open>\<open>sort_Slice\<close> keeps the entries: it neither drops nor repeats one.\<close>

lemma insertBy_count: "count_list (insertBy f x ys) z = count_list (x # ys) z"
  by (induction ys) auto

lemma sort_Slice_count: "count_list (sort_Slice f xs) z = count_list xs z"
  by (induction xs) (simp_all add: sort_Slice_def insertBy_count)



section \<open>Evaluation rules for the examples\<close>

lemmas demo_defs = demo_env_def demo_Stat_def demo_ReadDir_def DefaultConfig_def ctx_Background_def
  fileEntry_def dirEntry_def deep_env_def
lemmas scan_defs = ScanDirectory_def scanNode.simps scanEntries.simps prepareEntries_def limitEntries_def
  filterHiddenEntries_def sortEntries_def sort_Slice_def entryLess_def HasPrefix_def
  isProblematicPath_def problematicPaths_def ctx_Done_def appendChild_def
lemmas path_defs = unix_Join_def unix_Base_def Clean_def

section \<open>Structure of the scanned tree\<close>

lemma treeAll_nodes: "treeAll P t = (\<forall>n\<in>set (nodes t). P (Children n))"
  by (induction P t rule: treeAll.induct) (auto simp: list_all_iff)

lemma appendChild_sel [simp]:
  "Path (appendChild node child) = Path node"
  "Name (appendChild node child) = Name node"
  "IsDir (appendChild node child) = IsDir node"
  "Children (appendChild node child) = Children node @ [child]"
  by (simp_all add: appendChild_def)

lemma treeAll_appendChild:
  "treeAll P (appendChild node child) =
     (P (Children node @ [child]) \<and> list_all (treeAll P) (Children node) \<and> treeAll P child)"
  by (cases node) (auto simp: appendChild_def)

lemma treeAll_sel: "treeAll P node = (P (Children node) \<and> list_all (treeAll P) (Children node))"
  by (cases node) simp

lemma scan_frame:
  "Path (resNode (scanNode os cfg ctx t node depth)) = Path node \<and>
   Name (resNode (scanNode os cfg ctx t node depth)) = Name node \<and>
   IsDir (resNode (scanNode os cfg ctx t node depth)) = IsDir node"
  "Path (resNode (scanEntries os cfg ctx t node depth es cnt)) = Path node \<and>
   Name (resNode (scanEntries os cfg ctx t node depth es cnt)) = Name node \<and>
   IsDir (resNode (scanEntries os cfg ctx t node depth es cnt)) = IsDir node"
proof (induction os cfg ctx t node depth and os cfg ctx t node depth es cnt
       rule: scanNode_scanEntries.induct)
  case (1 os cfg ctx t node depth)
  then show ?case
    by (auto simp: scanNode.simps [of os cfg ctx t node depth] resNode_def split: sum.splits)
next
  case (2 os cfg ctx t node depth nodeCount)
  then show ?case by (simp add: resNode_def scanEntries.simps)
next
  case (3 os cfg ctx t node depth entry rest nodeCount)
  then show ?case
    by (auto simp: resNode_def scanEntries.simps split: prod.splits option.splits)
qed

lemma loopInv_step:
  "loopInv os cfg I P \<Longrightarrow> I cs (e # rest) \<Longrightarrow> \<not> isProblematicPath (Join os p (de_Name e)) \<Longrightarrow>
     Path c = Join os p (de_Name e) \<Longrightarrow> Name c = de_Name e \<Longrightarrow> IsDir c = de_IsDir e \<Longrightarrow>
     I (cs @ [c]) rest"
  unfolding loopInv_def by blast

lemma loopInv_skip: "loopInv os cfg I P \<Longrightarrow> I cs (e # rest) \<Longrightarrow> I cs rest"
  unfolding loopInv_def by blast

lemma loopInv_init: "loopInv os cfg I P \<Longrightarrow> I [] (prepareEntries cfg es)"
  unfolding loopInv_def by blast

lemma loopInv_fin: "loopInv os cfg I P \<Longrightarrow> I cs es \<Longrightarrow> P cs"
  unfolding loopInv_def by blast

lemma scan_treeAll:
  "loopInv os cfg I P \<Longrightarrow> Children node = [] \<Longrightarrow>
     treeAll P (resNode (scanNode os cfg ctx t node depth))"
  "loopInv os cfg I P \<Longrightarrow> I (Children node) es \<Longrightarrow> list_all (treeAll P) (Children node) \<Longrightarrow>
     treeAll P (resNode (scanEntries os cfg ctx t node depth es cnt))"
proof (induction os cfg ctx t node depth and os cfg ctx t node depth es cnt
       rule: scanNode_scanEntries.induct)
  case (1 os cfg ctx t node depth)
  have init: "I [] (prepareEntries cfg es)" for es
    using "1.prems"(1) by (rule loopInv_init)
  then have "P []" using "1.prems"(1) by (blast intro: loopInv_fin)
  then have same: "treeAll P node" using "1.prems"(2) by (simp add: treeAll_sel)
  show ?case
  proof (cases "ctx_Done ctx t \<or> (0 \<le> MaxDepth cfg \<and> MaxDepth cfg < depth) \<or> 50 < depth")
    case True
    with same show ?thesis
      by (auto simp: scanNode.simps [of os cfg ctx t node depth] resNode_def)
  next
    case False
    show ?thesis
    proof (cases "ReadDir os (Path node)")
      case (Inl e)
      with False same show ?thesis
        by (auto simp: scanNode.simps [of os cfg ctx t node depth] resNode_def)
    next
      case (Inr b)
      have "treeAll P (resNode (scanEntries os cfg ctx (Suc t) node depth (prepareEntries cfg b) 1))"
        using False Inr "1.prems" init by (intro "1.IH") simp_all
      with False Inr show ?thesis
        by (auto simp: scanNode.simps [of os cfg ctx t node depth])
    qed
  qed
next
  case (2 os cfg ctx t node depth nodeCount)
  then show ?case
    by (simp add: resNode_def scanEntries.simps treeAll_sel [of P node] loopInv_fin)
next
  case (3 os cfg ctx t node depth entry rest nodeCount)
  let ?p = "Join os (Path node) (de_Name entry)"
  note inv = "3.prems"(1)
  note unf = scanEntries.simps(2) [of os cfg ctx t node depth entry rest nodeCount]
  have here: "treeAll P node"
    using "3.prems" by (simp add: treeAll_sel [of P node] loopInv_fin)
  have skip: "I (Children node) rest"
    using inv "3.prems"(2) by (rule loopInv_skip)
  show ?case
  proof (cases "ctx_Done ctx t")
    case True
    with here show ?thesis by (simp add: resNode_def unf)
  next
    case nd: False
    show ?thesis
    proof (cases "isProblematicPath ?p")
      case True
      with nd "3.IH"(1) inv skip "3.prems"(3) show ?thesis by (simp add: unf)
    next
      case np: False
      have app: "treeAll P (appendChild node c)"
          and next_inv: "I (Children (appendChild node c)) rest"
          and next_all: "list_all (treeAll P) (Children (appendChild node c))"
        if "Path c = ?p" "Name c = de_Name entry" "IsDir c = de_IsDir entry" "treeAll P c" for c
      proof -
        have i: "I (Children node @ [c]) rest"
          using inv "3.prems"(2) np that(1-3) by (rule loopInv_step)
        then show "I (Children (appendChild node c)) rest" by simp
        from i have "P (Children node @ [c])" using inv by (blast intro: loopInv_fin)
        then show "treeAll P (appendChild node c)"
          using "3.prems"(3) that(4) by (simp add: treeAll_appendChild)
        show "list_all (treeAll P) (Children (appendChild node c))"
          using "3.prems"(3) that(4) by simp
      qed
      have "P []" using inv loopInv_init loopInv_fin by blast
      show ?thesis
      proof (cases "de_IsDir entry")
        case False
        let ?c = "TreeNode ?p (de_Name entry) False []"
        have "treeAll P ?c" using \<open>P []\<close> by simp
        then have "treeAll P (resNode (scanEntries os cfg ctx (Suc t) (appendChild node ?c) depth rest
                     (nodeCount + 1)))"
          using nd np False inv next_inv [of ?c] next_all [of ?c]
          by (intro "3.IH"(5)) simp_all
        with nd np False show ?thesis by (simp add: unf)
      next
        case True
        let ?r = "scanNode os cfg ctx (Suc t) (TreeNode ?p (de_Name entry) True []) (depth + 1)"
        obtain t' child cc err where r: "?r = (t', child, cc, err)"
          by (cases ?r) auto
        have c1: "treeAll P child"
          using "3.IH"(2) [OF nd np True inv] r by (simp add: resNode_def)
        have c2: "Path child = ?p" "Name child = de_Name entry" "IsDir child = de_IsDir entry"
          using scan_frame(1) [of os cfg ctx "Suc t" "TreeNode ?p (de_Name entry) True []" "depth + 1"]
            r True
          by (simp_all add: resNode_def)
        show ?thesis
        proof (cases err)
          case None
          have "treeAll P (resNode (scanEntries os cfg ctx t' (appendChild node child) depth rest
                  (nodeCount + cc)))"
            using inv next_inv [OF c2 c1] next_all [OF c2 c1]
            by (intro "3.IH"(3) [OF nd np True r [symmetric] refl refl None])
          with nd np True r None show ?thesis by (simp add: unf)
        next
          case (Some e)
          show ?thesis
          proof (cases "e = Canceled \<or> e = DeadlineExceeded")
            case True
            with Some nd np r \<open>de_IsDir entry\<close> app [OF c2 c1] show ?thesis
              by (simp add: resNode_def unf)
          next
            case False
            have "treeAll P (resNode (scanEntries os cfg ctx t' (appendChild node child) depth rest
                    (nodeCount + cc)))"
              using inv next_inv [OF c2 c1] next_all [OF c2 c1]
              by (intro "3.IH"(4) [OF nd np True r [symmetric] refl refl Some False])
            with nd np True r Some False show ?thesis by (simp add: unf)
          qed
        qed
      qed
    qed
  qed
qed


lemma ScanDirectory_Inr:
  "ScanDirectory os cfg ctx path = Inr r \<Longrightarrow>
     path \<noteq> [] \<and> Stat os path = Inr True \<and>
     resErr (scanNode os cfg ctx 0 (TreeNode path (Base os path) True []) 0) = None \<and>
     Root r = resNode (scanNode os cfg ctx 0 (TreeNode path (Base os path) True []) 0) \<and>
     NodeCount r = resCount (scanNode os cfg ctx 0 (TreeNode path (Base os path) True []) 0) \<and>
     RootPath r = path"
  by (auto simp: ScanDirectory_def resErr_def resNode_def resCount_def
      split: if_splits sum.splits prod.splits option.splits)

section \<open>Examples evaluated\<close>

lemma demo_scan_root:
  "ScanDirectory demo_env DefaultConfig ctx_Background ''root'' =
     Inr \<lparr>RootPath = ''root'', TreeText = [], NodeCount = 5, Error = None,
          Root =
            TreeNode ''root'' ''root'' True
              [TreeNode ''root/b'' ''b'' True
                 [TreeNode ''root/b/a.txt'' ''a.txt'' False [],
                  TreeNode ''root/b/z.txt'' ''z.txt'' False []],
               TreeNode ''root/a.log'' ''a.log'' False []]\<rparr>"
  by (simp add: demo_defs scan_defs path_defs)

section \<open>Root-level errors\<close>

text \<open>
  C4. \<open>ScanDirectory\<close> returns the empty-path error exactly for the empty path, the stat
  error (wrapping the cause) exactly for a non-empty path that \<open>os.Stat\<close> rejects, and
  the not-a-directory error exactly for a non-empty path that is not a directory; an
  error is returned in place of a result, never with one. For a non-empty path naming
  an inspectable directory the call returns a result or the wrapped error of the scan,
  and none of the three.
\<close>

theorem ScanDirectory_root_errors:
  "(ScanDirectory os cfg ctx path = Inl ErrPathEmpty \<longleftrightarrow> path = []) \<and>
   (ScanDirectory os cfg ctx path = Inl (ErrStat p e) \<longleftrightarrow>
      path \<noteq> [] \<and> p = path \<and> Stat os path = Inl e) \<and>
   (ScanDirectory os cfg ctx path = Inl (ErrNotDir p) \<longleftrightarrow>
      path \<noteq> [] \<and> p = path \<and> Stat os path = Inr False) \<and>
   (path \<noteq> [] \<and> Stat os path = Inr True \<longrightarrow>
      (\<exists>r. ScanDirectory os cfg ctx path = Inr r) \<or>
      (\<exists>e'. ScanDirectory os cfg ctx path = Inl (ErrScan e')))"
  by (auto simp: ScanDirectory_def split: sum.splits prod.splits option.splits)

theorem ScanDirectory_root_errors_witness:
  "ScanDirectory demo_env DefaultConfig ctx_Background [] = Inl ErrPathEmpty \<and>
   ScanDirectory demo_env DefaultConfig ctx_Background ''missing'' =
     Inl (ErrStat ''missing'' (OSError ''no such file or directory'')) \<and>
   ScanDirectory demo_env DefaultConfig ctx_Background ''root/a.log'' =
     Inl (ErrNotDir ''root/a.log'') \<and>
   (\<exists>r. ScanDirectory demo_env DefaultConfig ctx_Background ''root'' = Inr r)"
proof -
  have s: "Stat demo_env ''missing'' = Inl (OSError ''no such file or directory'')"
    "Stat demo_env ''root/a.log'' = Inr False" "Stat demo_env ''root'' = Inr True"
    by (simp_all add: demo_defs)
  show ?thesis
    using ScanDirectory_root_errors [of demo_env DefaultConfig ctx_Background "[]"]
      ScanDirectory_root_errors [of demo_env DefaultConfig ctx_Background "''missing''"
        "''missing''" "OSError ''no such file or directory''"]
      ScanDirectory_root_errors [of demo_env DefaultConfig ctx_Background "''root/a.log''"
        "''root/a.log''"]
      ScanDirectory_root_errors [of demo_env DefaultConfig ctx_Background "''root''"]
      s demo_scan_root
    by simp
qed

section \<open>A directory that cannot be listed\<close>

lemma ctx_Done_mono: "\<not> ctx_Done ctx (Suc t) \<Longrightarrow> \<not> ctx_Done ctx t"
  by (auto simp: ctx_Done_def split: option.splits)

text \<open>
  C3. Let an entry of the loop be a directory that the scan reaches (the context is not
  done, the path is not excluded, no depth limit stops the child first) and let
  \<open>os.ReadDir\<close> fail for it. Then \<open>scanNode\<close> returns the child unchanged, as a leaf, with
  count 1 and no error, and the loop of the parent appends that leaf, adds exactly 1 to
  the running count and goes on with the remaining entries.
\<close>

theorem ReadDir_failure_recovered:
  assumes "\<not> ctx_Done ctx (Suc t)"
    and "\<not> (0 \<le> MaxDepth cfg \<and> MaxDepth cfg < depth + 1)"
    and "depth + 1 \<le> 50"
    and "de_IsDir entry"
    and "childPath = Join os (Path node) (de_Name entry)"
    and "\<not> isProblematicPath childPath"
    and "ReadDir os childPath = Inl e"
  shows "scanNode os cfg ctx (Suc t) (TreeNode childPath (de_Name entry) True []) (depth + 1) =
           (Suc (Suc t), TreeNode childPath (de_Name entry) True [], 1, None) \<and>
         scanEntries os cfg ctx t node depth (entry # rest) nodeCount =
           scanEntries os cfg ctx (Suc (Suc t))
             (appendChild node (TreeNode childPath (de_Name entry) True []))
             depth rest (nodeCount + 1)"
proof -
  have child: "scanNode os cfg ctx (Suc t) (TreeNode childPath (de_Name entry) True []) (depth + 1) =
      (Suc (Suc t), TreeNode childPath (de_Name entry) True [], 1, None)"
    using assms by (simp add: scanNode.simps)
  moreover have "\<not> ctx_Done ctx t"
    using assms(1) by (rule ctx_Done_mono)
  ultimately show ?thesis
    using assms by (simp add: scanEntries.simps)
qed

lemma demo_scan_top:
  "ScanDirectory demo_env DefaultConfig ctx_Background ''top'' =
     Inr \<lparr>RootPath = ''top'', TreeText = [], NodeCount = 3, Error = None,
          Root =
            TreeNode ''top'' ''top'' True
              [TreeNode ''top/locked'' ''locked'' True [],
               TreeNode ''top/f'' ''f'' False []]\<rparr>"
  by (simp add: demo_defs scan_defs path_defs)

theorem ReadDir_failure_recovered_witness:
  "scanNode demo_env DefaultConfig ctx_Background 2 (TreeNode ''top/locked'' ''locked'' True []) 1 =
     (3, TreeNode ''top/locked'' ''locked'' True [], 1, None) \<and>
   scanEntries demo_env DefaultConfig ctx_Background 1 (TreeNode ''top'' ''top'' True []) 0
       [dirEntry ''locked'', fileEntry ''f''] 1 =
     (4, TreeNode ''top'' ''top'' True
           [TreeNode ''top/locked'' ''locked'' True [], TreeNode ''top/f'' ''f'' False []],
      3, None)"
proof -
  have h: "\<not> ctx_Done ctx_Background (Suc 1)"
    "\<not> (0 \<le> MaxDepth DefaultConfig \<and> MaxDepth DefaultConfig < 0 + 1)"
    "(0::int) + 1 \<le> 50"
    "de_IsDir (dirEntry ''locked'')"
    "''top/locked'' =
       Join demo_env (Path (TreeNode ''top'' ''top'' True [])) (de_Name (dirEntry ''locked''))"
    "\<not> isProblematicPath ''top/locked''"
    "ReadDir demo_env ''top/locked'' = Inl (OSError ''permission denied'')"
    by (simp_all add: demo_defs scan_defs path_defs)
  have rest: "scanEntries demo_env DefaultConfig ctx_Background (Suc (Suc 1))
      (appendChild (TreeNode ''top'' ''top'' True [])
        (TreeNode ''top/locked'' (de_Name (dirEntry ''locked'')) True []))
      0 [fileEntry ''f''] (1 + 1) =
     (4, TreeNode ''top'' ''top'' True
           [TreeNode ''top/locked'' ''locked'' True [], TreeNode ''top/f'' ''f'' False []],
      3, None)"
    by (simp add: demo_defs scan_defs path_defs)
  from ReadDir_failure_recovered [OF h, of "[fileEntry ''f'']" 1] rest
  show ?thesis
    by (simp add: dirEntry_def eval_nat_numeral)
qed

section \<open>Excluded paths\<close>

lemma noProblematic_simps [simp]:
  "noProblematic []"
  "noProblematic (cs @ [c]) = (noProblematic cs \<and> \<not> isProblematicPath (Path c))"
  by (auto simp: noProblematic_def)

lemma loopInv_noProblematic: "loopInv os cfg (\<lambda>cs es. noProblematic cs) noProblematic"
  by (simp add: loopInv_def)

text \<open>
  C9. In the tree that \<open>ScanDirectory\<close> returns no child of any node has a path that
  contains a reserved substring. In the loop, an entry whose child path contains one is
  skipped entirely: the loop goes on with the remaining entries from the same node and
  the same running count, so nothing is appended, nothing is counted, and \<open>scanNode\<close> is
  not called for the entry.
\<close>

theorem problematic_paths_skipped:
  "(ScanDirectory os cfg ctx path = Inr r \<longrightarrow>
      (\<forall>n \<in> set (nodes (Root r)). \<forall>c \<in> set (Children n). \<not> isProblematicPath (Path c))) \<and>
   (\<not> ctx_Done ctx t \<and> isProblematicPath (Join os (Path node) (de_Name entry)) \<longrightarrow>
      scanEntries os cfg ctx t node depth (entry # rest) nodeCount =
        scanEntries os cfg ctx (Suc t) node depth rest nodeCount)"
proof -
  have "\<forall>n \<in> set (nodes (Root r)). noProblematic (Children n)"
    if "ScanDirectory os cfg ctx path = Inr r"
  proof -
    have "treeAll noProblematic
            (resNode (scanNode os cfg ctx 0 (TreeNode path (Base os path) True []) 0))"
      by (rule scan_treeAll(1) [OF loopInv_noProblematic]) simp
    with ScanDirectory_Inr [OF that] show ?thesis
      by (simp add: treeAll_nodes)
  qed
  then show ?thesis
    by (auto simp: scanEntries.simps noProblematic_def list_all_iff)
qed

lemma demo_scan_cwd:
  "ScanDirectory demo_env DefaultConfig ctx_Background ''.'' =
     Inr \<lparr>RootPath = ''.'', TreeText = [], NodeCount = 10, Error = None,
          Root =
            TreeNode ''.'' ''.'' True
              [TreeNode ''root'' ''root'' True
                 [TreeNode ''root/b'' ''b'' True
                    [TreeNode ''root/b/a.txt'' ''a.txt'' False [],
                     TreeNode ''root/b/z.txt'' ''z.txt'' False []],
                  TreeNode ''root/a.log'' ''a.log'' False []],
               TreeNode ''top'' ''top'' True
                 [TreeNode ''top/locked'' ''locked'' True [],
                  TreeNode ''top/f'' ''f'' False []],
               TreeNode ''x'' ''x'' False []]\<rparr>"
  by (simp add: demo_defs scan_defs path_defs)

theorem problematic_paths_skipped_witness:
  "(\<exists>r. ScanDirectory demo_env DefaultConfig ctx_Background ''.'' = Inr r \<and>
        list_all (\<lambda>n. list_all (\<lambda>c. \<not> isProblematicPath (Path c)) (Children n)) (nodes (Root r))) \<and>
   isProblematicPath (Join demo_env (Path (TreeNode ''.'' ''.'' True [])) (de_Name (dirEntry ''Recovery''))) \<and>
   scanEntries demo_env DefaultConfig ctx_Background 1 (TreeNode ''.'' ''.'' True []) 0
       [dirEntry ''Recovery'', fileEntry ''x''] 1 =
     (3, TreeNode ''.'' ''.'' True [TreeNode ''x'' ''x'' False []], 2, None)"
proof -
  have h: "\<not> ctx_Done ctx_Background 1"
    "isProblematicPath (Join demo_env (Path (TreeNode ''.'' ''.'' True [])) (de_Name (dirEntry ''Recovery'')))"
    by (simp_all add: demo_defs scan_defs path_defs)
  have rest: "scanEntries demo_env DefaultConfig ctx_Background (Suc 1) (TreeNode ''.'' ''.'' True []) 0
       [fileEntry ''x''] 1 =
     (3, TreeNode ''.'' ''.'' True [TreeNode ''x'' ''x'' False []], 2, None)"
    by (simp add: demo_defs scan_defs path_defs)
  from problematic_paths_skipped [of demo_env DefaultConfig ctx_Background "''.''" _ 1
      "TreeNode ''.'' ''.'' True []" "dirEntry ''Recovery''" 0 "[fileEntry ''x'']" 1]
    demo_scan_cwd h rest
  show ?thesis
    by (simp add: list_all_iff)
qed

section \<open>Directories first, names ascending\<close>

lemma entryLe_iff:
  "(\<not> entryLess b a) =
     ((de_IsDir a \<or> \<not> de_IsDir b) \<and> (de_IsDir a \<noteq> de_IsDir b \<or> de_Name a \<le> de_Name b))"
  unfolding entryLess_def by (cases "de_IsDir a"; cases "de_IsDir b"; simp add: not_less)

lemma set_insertBy: "set (insertBy f x ys) = insert x (set ys)"
  by (induction ys) auto

lemma sorted_insertBy:
  assumes asym: "\<And>a b. f a b \<Longrightarrow> \<not> f b a"
    and trans: "\<And>a b c. \<not> f b a \<Longrightarrow> \<not> f c b \<Longrightarrow> \<not> f c a"
    and sorted: "sorted_wrt (\<lambda>a b. \<not> f b a) ys"
  shows "sorted_wrt (\<lambda>a b. \<not> f b a) (insertBy f x ys)"
  using sorted
proof (induction ys)
  case Nil
  then show ?case by simp
next
  case (Cons y ys)
  from Cons.prems have tail: "sorted_wrt (\<lambda>a b. \<not> f b a) ys"
    and head: "\<forall>z \<in> set ys. \<not> f z y"
    by simp_all
  show ?case
  proof (cases "f y x")
    case True
    then have "\<not> f x y" by (rule asym)
    with True head Cons.IH [OF tail] show ?thesis
      by (simp add: set_insertBy)
  next
    case False
    have "\<forall>z \<in> set ys. \<not> f z x"
    proof
      fix z assume "z \<in> set ys"
      with head have "\<not> f z y" by simp
      with False show "\<not> f z x" by (rule trans)
    qed
    with False head tail show ?thesis by simp
  qed
qed

lemma sorted_sort_Slice:
  assumes asym: "\<And>a b. f a b \<Longrightarrow> \<not> f b a"
    and trans: "\<And>a b c. \<not> f b a \<Longrightarrow> \<not> f c b \<Longrightarrow> \<not> f c a"
  shows "sorted_wrt (\<lambda>a b. \<not> f b a) (sort_Slice f xs)"
proof (induction xs)
  case Nil
  show ?case by (simp add: sort_Slice_def)
next
  case (Cons x xs)
  have "sorted_wrt (\<lambda>a b. \<not> f b a) (insertBy f x (sort_Slice f xs))"
    using asym trans Cons.IH by (rule sorted_insertBy)
  then show ?case by (simp add: sort_Slice_def)
qed

lemma entryLess_asym: "entryLess a b \<Longrightarrow> \<not> entryLess b a"
  unfolding entryLess_def by (cases "de_IsDir a"; cases "de_IsDir b"; simp)

lemma entryLe_trans: "\<not> entryLess b a \<Longrightarrow> \<not> entryLess c b \<Longrightarrow> \<not> entryLess c a"
  unfolding entryLe_iff
  by (cases "de_IsDir a"; cases "de_IsDir b"; cases "de_IsDir c"; simp)

lemma sorted_sortEntries: "sorted_wrt (\<lambda>a b. \<not> entryLess b a) (sortEntries es)"
  unfolding sortEntries_def
  by (rule sorted_sort_Slice) (fact entryLess_asym entryLe_trans)+

lemma sortedInv_step:
  assumes "sortedInv cs (e # rest)" and "Name c = de_Name e" and "IsDir c = de_IsDir e"
  shows "sortedInv (cs @ [c]) rest"
proof -
  from assms(1) have cs: "sorted_wrt childOrder cs"
    and rest: "sorted_wrt (\<lambda>a b. \<not> entryLess b a) rest"
    and e_rest: "\<forall>e' \<in> set rest. \<not> entryLess e' e"
    and cs_e: "\<forall>x \<in> set cs. nodeLeEntry x e"
    and cs_rest: "\<forall>x \<in> set cs. \<forall>e' \<in> set rest. nodeLeEntry x e'"
    by (simp_all add: sortedInv_def list_all_iff)
  have "\<forall>x \<in> set cs. childOrder x c"
    using cs_e assms(2,3) by (simp add: childOrder_def nodeLeEntry_def)
  moreover have "\<forall>e' \<in> set rest. nodeLeEntry c e'"
    using e_rest assms(2,3) by (simp add: entryLe_iff nodeLeEntry_def)
  ultimately show ?thesis
    using cs rest cs_rest by (simp add: sortedInv_def list_all_iff sorted_wrt_append)
qed

lemma sortedInv_skip: "sortedInv cs (e # rest) \<Longrightarrow> sortedInv cs rest"
  by (simp add: sortedInv_def list_all_iff)

lemma sortedInv_init: "SortDirs cfg \<Longrightarrow> sortedInv [] (prepareEntries cfg es)"
  by (simp add: sortedInv_def prepareEntries_def Let_def sorted_sortEntries)

lemma loopInv_sorted:
  assumes "SortDirs cfg"
  shows "loopInv os cfg sortedInv (sorted_wrt childOrder)"
  unfolding loopInv_def
proof (intro conjI allI impI)
  fix cs e rest c p
  assume "sortedInv cs (e # rest) \<and> \<not> isProblematicPath (Join os p (de_Name e)) \<and>
          Path c = Join os p (de_Name e) \<and> Name c = de_Name e \<and> IsDir c = de_IsDir e"
  then show "sortedInv (cs @ [c]) rest"
    by (blast intro: sortedInv_step)
next
  fix cs e rest
  assume "sortedInv cs (e # rest)"
  then show "sortedInv cs rest" by (rule sortedInv_skip)
next
  fix es
  show "sortedInv [] (prepareEntries cfg es)"
    using assms by (rule sortedInv_init)
next
  fix cs :: "TreeNode list" and es :: "DirEntry list"
  assume "sortedInv cs es"
  then show "sorted_wrt childOrder cs" by (simp add: sortedInv_def)
qed

text \<open>
  C7. With \<open>SortDirs\<close> set, in the children sequence of every node of the tree that
  \<open>ScanDirectory\<close> returns no file comes before a directory, and the names of the
  directories, and of the files, are in non-decreasing byte-wise order.
\<close>

theorem children_sorted_dirs_first:
  assumes "SortDirs cfg"
    and "ScanDirectory os cfg ctx path = Inr r"
    and "n \<in> set (nodes (Root r))"
  shows "sorted_wrt childOrder (Children n)"
proof -
  have "treeAll (sorted_wrt childOrder)
          (resNode (scanNode os cfg ctx 0 (TreeNode path (Base os path) True []) 0))"
    by (rule scan_treeAll(1) [OF loopInv_sorted [OF assms(1)]]) simp
  with ScanDirectory_Inr [OF assms(2)] assms(3) show ?thesis
    by (simp add: treeAll_nodes)
qed

theorem children_sorted_dirs_first_witness:
  "SortDirs DefaultConfig \<and>
   ScanDirectory demo_env DefaultConfig ctx_Background ''root'' =
     Inr \<lparr>RootPath = ''root'', TreeText = [], NodeCount = 5, Error = None,
          Root =
            TreeNode ''root'' ''root'' True
              [TreeNode ''root/b'' ''b'' True
                 [TreeNode ''root/b/a.txt'' ''a.txt'' False [],
                  TreeNode ''root/b/z.txt'' ''z.txt'' False []],
               TreeNode ''root/a.log'' ''a.log'' False []]\<rparr> \<and>
   sorted_wrt childOrder
     [TreeNode ''root/b/a.txt'' ''a.txt'' False [], TreeNode ''root/b/z.txt'' ''z.txt'' False []]"
proof -
  have s: "SortDirs DefaultConfig" by (simp add: DefaultConfig_def)
  have n: "TreeNode ''root/b'' ''b'' True
                 [TreeNode ''root/b/a.txt'' ''a.txt'' False [],
                  TreeNode ''root/b/z.txt'' ''z.txt'' False []]
     \<in> set (nodes (Root \<lparr>RootPath = ''root'', TreeText = [], NodeCount = 5, Error = None,
          Root =
            TreeNode ''root'' ''root'' True
              [TreeNode ''root/b'' ''b'' True
                 [TreeNode ''root/b/a.txt'' ''a.txt'' False [],
                  TreeNode ''root/b/z.txt'' ''z.txt'' False []],
               TreeNode ''root/a.log'' ''a.log'' False []]\<rparr>))"
    by simp
  from children_sorted_dirs_first [OF s demo_scan_root n] s demo_scan_root
  show ?thesis by simp
qed

section \<open>Cancellation\<close>

lemma ctx_simps [simp]:
  "DoneAt c = None \<Longrightarrow> \<not> ctx_Done c t"
  "ctx_Done (cancelledAt c k) t = (k \<le> t)"
  "Err (cancelledAt c k) = Err c"
  by (simp_all add: ctx_Done_def cancelledAt_def)

lemma simulates_stop:
  "k \<le> t \<Longrightarrow> resErr r0 = None \<Longrightarrow> t < resPolls r0 \<Longrightarrow> simulates r0 (Suc t, n, c, Some e) t k e"
  by (simp add: simulates_def resPolls_def resErr_def max_def)

lemma simulates_later:
  "simulates r0 r t' k e \<Longrightarrow> t \<le> t' \<Longrightarrow> t' \<le> k \<Longrightarrow> simulates r0 r t k e"
  by (auto simp: simulates_def max_def split: if_splits)

lemma simulates_child_stop:
  assumes "simulates r1 (t', ch, cc, err) (Suc t) k e" and "t < k" and "k < resPolls r1"
    and "resErr r0 = None" and "resPolls r1 \<le> resPolls r0"
  shows "err = Some e \<and> simulates r0 (t', n, cnt, Some e) t k e"
  using assms by (auto simp: simulates_def resPolls_def resErr_def max_def split: if_splits)

lemma scan_simulates:
  "DoneAt c = None \<Longrightarrow> Err c = Canceled \<or> Err c = DeadlineExceeded \<Longrightarrow>
     t < resPolls (scanNode os cfg c t node depth) \<and>
     simulates (scanNode os cfg c t node depth)
       (scanNode os cfg (cancelledAt c k) t node depth) t k (Err c)"
  "DoneAt c = None \<Longrightarrow> Err c = Canceled \<or> Err c = DeadlineExceeded \<Longrightarrow>
     t \<le> resPolls (scanEntries os cfg c t node depth es cnt) \<and>
     (es \<noteq> [] \<longrightarrow> t < resPolls (scanEntries os cfg c t node depth es cnt)) \<and>
     resErr (scanEntries os cfg c t node depth es cnt) = None \<and>
     (t \<le> k \<longrightarrow>
       simulates (scanEntries os cfg c t node depth es cnt)
         (scanEntries os cfg (cancelledAt c k) t node depth es cnt) t k (Err c))"
proof (induction os cfg c t node depth and os cfg c t node depth es cnt
       rule: scanNode_scanEntries.induct)
  case (1 os cfg c t node depth)
  note nd = ctx_simps(1) [OF "1.prems"(1)]
  let ?ck = "cancelledAt c k"
  show ?case
  proof (cases "(0 \<le> MaxDepth cfg \<and> MaxDepth cfg < depth) \<or> 50 < depth \<or>
                 (\<exists>e. ReadDir os (Path node) = Inl e)")
    case True
    let ?n = "if 0 \<le> MaxDepth cfg \<and> MaxDepth cfg < depth then 0 else 1 :: int"
    have r0: "scanNode os cfg c t node depth = (Suc t, node, ?n, None)"
      using True nd by (auto simp: scanNode.simps [of os cfg c t node depth])
    have rk: "scanNode os cfg ?ck t node depth =
        (if k \<le> t then (Suc t, node, 0, Some (Err c)) else (Suc t, node, ?n, None))"
      using True by (auto simp: scanNode.simps [of os cfg ?ck t node depth])
    show ?thesis
      unfolding r0 rk
      by (auto simp: simulates_def resPolls_def resErr_def max_def)
  next
    case False
    then obtain b where b: "ReadDir os (Path node) = Inr b"
      by (cases "ReadDir os (Path node)") auto
    let ?r0 = "scanEntries os cfg c (Suc t) node depth (prepareEntries cfg b) 1"
    let ?rk = "scanEntries os cfg ?ck (Suc t) node depth (prepareEntries cfg b) 1"
    have r0: "scanNode os cfg c t node depth = ?r0"
      using False b nd by (auto simp: scanNode.simps [of os cfg c t node depth])
    have rk: "scanNode os cfg ?ck t node depth =
        (if k \<le> t then (Suc t, node, 0, Some (Err c)) else ?rk)"
      using False b by (auto simp: scanNode.simps [of os cfg ?ck t node depth])
    have ih: "Suc t \<le> resPolls ?r0" "resErr ?r0 = None"
      "Suc t \<le> k \<longrightarrow> simulates ?r0 ?rk (Suc t) k (Err c)"
      using "1.IH" [OF nd _ _ b "1.prems"] False by auto
    show ?thesis
    proof (cases "k \<le> t")
      case True
      with ih show ?thesis
        unfolding r0 rk by (simp add: simulates_stop)
    next
      case k: False
      with ih have "simulates ?r0 ?rk t k (Err c)"
        by (auto intro: simulates_later)
      with ih k show ?thesis
        unfolding r0 rk by simp
    qed
  qed
next
  case (2 os cfg c t node depth nodeCount)
  then show ?case
    by (simp add: scanEntries.simps simulates_def resPolls_def resErr_def)
next
  case (3 os cfg c t node depth entry rest nodeCount)
  note nd = ctx_simps(1) [OF "3.prems"(1)]
  note pr = "3.prems"
  let ?ck = "cancelledAt c k"
  let ?p = "Join os (Path node) (de_Name entry)"
  note unf0 = scanEntries.simps(2) [of os cfg c t node depth entry rest nodeCount]
  note unfk = scanEntries.simps(2) [of os cfg ?ck t node depth entry rest nodeCount]
  let ?r0 = "scanEntries os cfg c t node depth (entry # rest) nodeCount"
  let ?rk = "scanEntries os cfg ?ck t node depth (entry # rest) nodeCount"
  have main: "t < resPolls ?r0 \<and> resErr ?r0 = None \<and> (t < k \<longrightarrow> simulates ?r0 ?rk t k (Err c))"
  proof (cases "isProblematicPath ?p")
    case True
    let ?s0 = "scanEntries os cfg c (Suc t) node depth rest nodeCount"
    let ?sk = "scanEntries os cfg ?ck (Suc t) node depth rest nodeCount"
    have ih: "Suc t \<le> resPolls ?s0" "resErr ?s0 = None"
      "Suc t \<le> k \<longrightarrow> simulates ?s0 ?sk (Suc t) k (Err c)"
      using "3.IH"(1) [OF nd True pr] by auto
    have "?r0 = ?s0" using True nd by (simp add: unf0)
    moreover have "t < k \<Longrightarrow> ?rk = ?sk" using True by (simp add: unfk)
    ultimately show ?thesis
      using ih by (auto intro: simulates_later)
  next
    case np: False
    show ?thesis
    proof (cases "de_IsDir entry")
      case False
      let ?n = "appendChild node (TreeNode ?p (de_Name entry) False [])"
      let ?s0 = "scanEntries os cfg c (Suc t) ?n depth rest (nodeCount + 1)"
      let ?sk = "scanEntries os cfg ?ck (Suc t) ?n depth rest (nodeCount + 1)"
      have ih: "Suc t \<le> resPolls ?s0" "resErr ?s0 = None"
        "Suc t \<le> k \<longrightarrow> simulates ?s0 ?sk (Suc t) k (Err c)"
        using "3.IH"(5) [OF nd np False pr] by auto
      have "?r0 = ?s0" using np False nd by (simp add: unf0)
      moreover have "t < k \<Longrightarrow> ?rk = ?sk" using np False by (simp add: unfk)
      ultimately show ?thesis
        using ih by (auto intro: simulates_later)
    next
      case True
      let ?child = "TreeNode ?p (de_Name entry) True []"
      let ?c0 = "scanNode os cfg c (Suc t) ?child (depth + 1)"
      let ?ckr = "scanNode os cfg ?ck (Suc t) ?child (depth + 1)"
      obtain t1 ch cc err where c0: "?c0 = (t1, ch, cc, err)"
        by (cases ?c0) auto
      have ihc: "Suc t < resPolls ?c0" "simulates ?c0 ?ckr (Suc t) k (Err c)"
        using "3.IH"(2) [OF nd np True pr] by auto
      then have err: "err = None" and t1: "Suc t < t1"
        using c0 by (simp_all add: simulates_def resErr_def resPolls_def)
      let ?n = "appendChild node ch"
      let ?s0 = "scanEntries os cfg c t1 ?n depth rest (nodeCount + cc)"
      let ?sk = "scanEntries os cfg ?ck t1 ?n depth rest (nodeCount + cc)"
      have ih: "t1 \<le> resPolls ?s0" "resErr ?s0 = None"
        "t1 \<le> k \<longrightarrow> simulates ?s0 ?sk t1 k (Err c)"
        using "3.IH"(3) [OF nd np True c0 [symmetric] refl refl err pr] by auto
      have r0: "?r0 = ?s0" using np True nd c0 err by (simp add: unf0)
      have sim: "simulates ?r0 ?rk t k (Err c)" if tk: "t < k"
      proof (cases "t1 \<le> k")
        case le: True
        with ihc(2) c0 have "?ckr = (t1, ch, cc, None)"
          by (simp add: simulates_def resPolls_def err)
        then have "?rk = ?sk" using np True tk by (simp add: unfk)
        with r0 ih le t1 show ?thesis
          by (auto intro: simulates_later)
      next
        case gt: False
        obtain t' ch' cc' err' where ckr: "?ckr = (t', ch', cc', err')"
          by (cases ?ckr) auto
        have stop: "err' = Some (Err c) \<and>
            simulates ?s0 (t', appendChild node ch', nodeCount, Some (Err c)) t k (Err c)"
          using ihc(2) [unfolded ckr] tk gt ih c0
          by (intro simulates_child_stop [where ?r1.0 = ?c0]) (simp_all add: resPolls_def)
        then have "?rk = (t', appendChild node ch', nodeCount, Some (Err c))"
          using np True tk ckr pr(2) by (auto simp: unfk)
        with stop r0 show ?thesis by simp
      qed
      from r0 ih t1 sim show ?thesis by auto
    qed
  qed
  have "simulates ?r0 ?rk t k (Err c)" if "t \<le> k"
  proof (cases "t = k")
    case True
    then have "?rk = (Suc t, node, nodeCount, Some (Err c))"
      by (simp add: scanEntries.simps(2))
    with main True show ?thesis
      by (simp add: simulates_stop)
  next
    case False
    with that main show ?thesis by simp
  qed
  with main show ?case by simp
qed

lemma cancelledAt_neverDone: "DoneAt ctx = Some k \<Longrightarrow> cancelledAt (neverDone ctx) k = ctx"
  by (simp add: cancelledAt_def neverDone_def)

lemma neverDone_simps [simp]: "DoneAt (neverDone ctx) = None" "Err (neverDone ctx) = Err ctx"
  by (simp_all add: neverDone_def)

text \<open>
  C2. Let the context be done from poll \<open>k\<close> on, with \<open>Canceled\<close> or \<open>DeadlineExceeded\<close> as
  its error, and compare with the same scan under a context that is never done. Every
  call of \<open>scanNode\<close>, and every run of its loop that starts at or before poll \<open>k\<close>, that
  would go on beyond poll \<open>k\<close> returns the context's error, and it returns right after the
  first poll that finds the context done (the poll counter is then \<open>max t k + 1\<close>): since
  every node visit and every loop iteration starts with a poll, nothing more is scanned,
  no remaining sibling in any active frame. \<open>ScanDirectory\<close> then returns the error
  wrapping that cause, and no result.
\<close>

theorem cancellation_propagates:
  assumes "Err ctx = Canceled \<or> Err ctx = DeadlineExceeded"
    and "DoneAt ctx = Some k"
  shows
    "(k < resPolls (scanNode os cfg (neverDone ctx) t node depth) \<longrightarrow>
        resErr (scanNode os cfg ctx t node depth) = Some (Err ctx) \<and>
        resPolls (scanNode os cfg ctx t node depth) = Suc (max t k)) \<and>
     (t \<le> k \<and> k < resPolls (scanEntries os cfg (neverDone ctx) t node depth es cnt) \<longrightarrow>
        resErr (scanEntries os cfg ctx t node depth es cnt) = Some (Err ctx) \<and>
        resPolls (scanEntries os cfg ctx t node depth es cnt) = Suc k) \<and>
     (path \<noteq> [] \<and> Stat os path = Inr True \<and>
      k < resPolls (scanNode os cfg (neverDone ctx) 0 (TreeNode path (Base os path) True []) 0) \<longrightarrow>
        ScanDirectory os cfg ctx path = Inl (ErrScan (Err ctx)))"
proof -
  have e: "Err (neverDone ctx) = Canceled \<or> Err (neverDone ctx) = DeadlineExceeded"
    using assms(1) by simp
  note ck = cancelledAt_neverDone [OF assms(2)]
  have node: "resErr (scanNode os cfg ctx t node depth) = Some (Err ctx) \<and>
        resPolls (scanNode os cfg ctx t node depth) = Suc (max t k)"
    if "k < resPolls (scanNode os cfg (neverDone ctx) t node depth)" for t node depth
    using scan_simulates(1) [OF neverDone_simps(1) e, of t os cfg node depth k] that
    by (simp add: simulates_def ck)
  have loop: "resErr (scanEntries os cfg ctx t node depth es cnt) = Some (Err ctx) \<and>
        resPolls (scanEntries os cfg ctx t node depth es cnt) = Suc k"
    if "t \<le> k" "k < resPolls (scanEntries os cfg (neverDone ctx) t node depth es cnt)"
    using scan_simulates(2) [OF neverDone_simps(1) e, of t os cfg node depth es cnt k] that
    by (simp add: simulates_def ck max_def)
  have "ScanDirectory os cfg ctx path = Inl (ErrScan (Err ctx))"
    if "path \<noteq> []" "Stat os path = Inr True"
      "k < resPolls (scanNode os cfg (neverDone ctx) 0 (TreeNode path (Base os path) True []) 0)"
    using node [OF that(3)] that(1,2)
    by (auto simp: ScanDirectory_def resErr_def split: prod.splits)
  with node loop show ?thesis by blast
qed

theorem cancellation_propagates_witness:
  "resErr (scanNode demo_env DefaultConfig \<lparr>DoneAt = Some 3, Err = Canceled\<rparr> 2
             (TreeNode ''root/b'' ''b'' True []) 1) = Some Canceled \<and>
   resPolls (scanNode demo_env DefaultConfig \<lparr>DoneAt = Some 3, Err = Canceled\<rparr> 2
             (TreeNode ''root/b'' ''b'' True []) 1) = 4 \<and>
   resPolls (scanEntries demo_env DefaultConfig \<lparr>DoneAt = Some 3, Err = Canceled\<rparr> 2
             (TreeNode ''root/b'' ''b'' True []) 1 [fileEntry ''a.txt'', fileEntry ''z.txt''] 1) = 4 \<and>
   ScanDirectory demo_env DefaultConfig \<lparr>DoneAt = Some 3, Err = Canceled\<rparr> ''root'' =
     Inl (ErrScan Canceled)"
proof -
  let ?ctx = "\<lparr>DoneAt = Some 3, Err = Canceled\<rparr>"
  have h: "Err ?ctx = Canceled \<or> Err ?ctx = DeadlineExceeded" "DoneAt ?ctx = Some 3"
    by simp_all
  have polls: "resPolls (scanNode demo_env DefaultConfig (neverDone ?ctx) 0
                 (TreeNode ''root'' (Base demo_env ''root'') True []) 0) = 6"
    "resPolls (scanNode demo_env DefaultConfig (neverDone ?ctx) 2
                 (TreeNode ''root/b'' ''b'' True []) 1) = 5"
    "resPolls (scanEntries demo_env DefaultConfig (neverDone ?ctx) 2
                 (TreeNode ''root/b'' ''b'' True []) 1 [fileEntry ''a.txt'', fileEntry ''z.txt''] 1) = 4"
    by (simp_all add: demo_defs scan_defs path_defs neverDone_def resPolls_def)
  have st: "Stat demo_env ''root'' = Inr True"
    by (simp add: demo_defs)
  from cancellation_propagates [OF h, where os = demo_env and cfg = DefaultConfig and t = 2
      and node = "TreeNode ''root/b'' ''b'' True []" and depth = 1
      and es = "[fileEntry ''a.txt'', fileEntry ''z.txt'']" and cnt = 1 and path = "''root''"]
    polls st
  show ?thesis by simp
qed

section \<open>The size cap\<close>

lemma firstThousand_sel [simp]:
  "Join (firstThousand os) = Join os" "Stat (firstThousand os) = Stat os"
  "Base (firstThousand os) = Base os"
  by (simp_all add: firstThousand_def)

lemma prepareEntries_firstThousand:
  "ReadDir os p = Inr b \<Longrightarrow>
     \<exists>b'. ReadDir (firstThousand os) p = Inr b' \<and> prepareEntries cfg b' = prepareEntries cfg b"
  by (simp add: firstThousand_def prepareEntries_def limitEntries_def)

lemma ReadDir_firstThousand_Inl:
  "ReadDir os p = Inl e \<Longrightarrow> ReadDir (firstThousand os) p = Inl e"
  by (simp add: firstThousand_def)

lemma scan_firstThousand:
  "scanNode (firstThousand os) cfg ctx t node depth = scanNode os cfg ctx t node depth"
  "scanEntries (firstThousand os) cfg ctx t node depth es cnt =
     scanEntries os cfg ctx t node depth es cnt"
proof (induction os cfg ctx t node depth and os cfg ctx t node depth es cnt
       rule: scanNode_scanEntries.induct)
  case (1 os cfg ctx t node depth)
  show ?case
  proof (cases "ReadDir os (Path node)")
    case (Inl e)
    with ReadDir_firstThousand_Inl [OF Inl] show ?thesis
      by (simp add: scanNode.simps [of _ cfg ctx t node depth])
  next
    case (Inr b)
    from prepareEntries_firstThousand [OF Inr, of cfg]
    obtain b' where b': "ReadDir (firstThousand os) (Path node) = Inr b'"
      "prepareEntries cfg b' = prepareEntries cfg b" by blast
    with Inr "1.IH" [OF _ _ _ Inr] show ?thesis
      by (auto simp: scanNode.simps [of _ cfg ctx t node depth])
  qed
next
  case (2 os cfg ctx t node depth nodeCount)
  show ?case by (simp add: scanEntries.simps)
next
  case (3 os cfg ctx t node depth entry rest nodeCount)
  then show ?case
    by (auto simp: scanEntries.simps(2) [of _ cfg ctx t node depth entry rest nodeCount]
        split: prod.splits option.splits)
qed

text \<open>
  C6. When the listing of a directory succeeds, the loop of \<open>scanNode\<close> runs over the
  hidden filter and the sort (as configured) of exactly the first 1000 entries, in
  enumeration order, if the directory has more than 10000 entries, and of all entries
  if it has at most 10000. The directory is processed as if only the retained entries
  existed: the scan returns what it returns on the file system in which every directory
  with more than 10000 entries holds its first 1000 entries only.
\<close>

theorem size_cap_retains_first_thousand:
  assumes "\<not> ctx_Done ctx t"
    and "\<not> (0 \<le> MaxDepth cfg \<and> MaxDepth cfg < depth)"
    and "depth \<le> 50"
    and "ReadDir os (Path node) = Inr entries"
  shows
    "(10000 < length entries \<longrightarrow>
        scanNode os cfg ctx t node depth =
          scanEntries os cfg ctx (Suc t) node depth
            ((if SortDirs cfg then sortEntries else id)
              ((if ShowHidden cfg then id else filterHiddenEntries) (take 1000 entries))) 1) \<and>
     (length entries \<le> 10000 \<longrightarrow>
        scanNode os cfg ctx t node depth =
          scanEntries os cfg ctx (Suc t) node depth
            ((if SortDirs cfg then sortEntries else id)
              ((if ShowHidden cfg then id else filterHiddenEntries) entries)) 1) \<and>
     scanNode (firstThousand os) cfg ctx t node depth = scanNode os cfg ctx t node depth \<and>
     ScanDirectory (firstThousand os) cfg ctx path = ScanDirectory os cfg ctx path"
proof -
  have "scanNode os cfg ctx t node depth =
      scanEntries os cfg ctx (Suc t) node depth (prepareEntries cfg entries) 1"
    using assms by (auto simp: scanNode.simps [of os cfg ctx t node depth])
  moreover have "10000 < length entries \<Longrightarrow> prepareEntries cfg entries =
      (if SortDirs cfg then sortEntries else id)
        ((if ShowHidden cfg then id else filterHiddenEntries) (take 1000 entries))"
    by (simp add: prepareEntries_def limitEntries_def)
  moreover have "length entries \<le> 10000 \<Longrightarrow> prepareEntries cfg entries =
      (if SortDirs cfg then sortEntries else id)
        ((if ShowHidden cfg then id else filterHiddenEntries) entries)"
    by (simp add: prepareEntries_def limitEntries_def)
  moreover have "ScanDirectory (firstThousand os) cfg ctx path = ScanDirectory os cfg ctx path"
    by (simp add: scan_firstThousand ScanDirectory_def split: sum.splits)
  ultimately show ?thesis
    by (simp add: scan_firstThousand)
qed

lemma length_bigListing: "length (bigListing n) = n + 2"
  by (simp add: bigListing_def hiddenEntries_def)

lemma filterHidden_hiddenEntries: "filterHiddenEntries (hiddenEntries n) = []"
  by (simp add: filterHiddenEntries_def hiddenEntries_def HasPrefix_def fileEntry_def)

lemma take_bigListing: "take 1000 (bigListing 9999) = fileEntry ''first'' # hiddenEntries 999"
  by (simp add: bigListing_def hiddenEntries_def take_map)

lemma filterHidden_big:
  "filterHiddenEntries (fileEntry ''first'' # hiddenEntries 999) = [fileEntry ''first'']"
  "filterHiddenEntries (bigListing 9998) = [fileEntry ''first'', fileEntry ''last'']"
  using filterHidden_hiddenEntries [of 999] filterHidden_hiddenEntries [of 9998]
  by (simp_all add: bigListing_def filterHiddenEntries_def HasPrefix_def fileEntry_def)

theorem size_cap_retains_first_thousand_witness:
  "scanNode big_env DefaultConfig ctx_Background 0 (TreeNode ''big'' ''big'' True []) 0 =
     (2, TreeNode ''big'' ''big'' True [TreeNode ''big/first'' ''first'' False []], 2, None) \<and>
   scanNode big_env DefaultConfig ctx_Background 0 (TreeNode ''full'' ''full'' True []) 0 =
     (3, TreeNode ''full'' ''full'' True
           [TreeNode ''full/first'' ''first'' False [], TreeNode ''full/last'' ''last'' False []],
      3, None)"
proof -
  have h: "\<not> ctx_Done ctx_Background 0"
    "\<not> (0 \<le> MaxDepth DefaultConfig \<and> MaxDepth DefaultConfig < 0)" "(0::int) \<le> 50"
    "ReadDir big_env (Path (TreeNode ''big'' ''big'' True [])) = Inr (bigListing 9999)"
    "ReadDir big_env (Path (TreeNode ''full'' ''full'' True [])) = Inr (bigListing 9998)"
    by (simp_all add: ctx_Background_def ctx_Done_def DefaultConfig_def big_env_def)
  have cfg: "SortDirs DefaultConfig" "\<not> ShowHidden DefaultConfig"
    by (simp_all add: DefaultConfig_def)
  have loops:
    "scanEntries big_env DefaultConfig ctx_Background (Suc 0) (TreeNode ''big'' ''big'' True []) 0
       (sortEntries [fileEntry ''first'']) 1 =
     (2, TreeNode ''big'' ''big'' True [TreeNode ''big/first'' ''first'' False []], 2, None)"
    "scanEntries big_env DefaultConfig ctx_Background (Suc 0) (TreeNode ''full'' ''full'' True []) 0
       (sortEntries [fileEntry ''first'', fileEntry ''last'']) 1 =
     (3, TreeNode ''full'' ''full'' True
           [TreeNode ''full/first'' ''first'' False [], TreeNode ''full/last'' ''last'' False []],
      3, None)"
    by (simp_all add: scanEntries.simps sortEntries_def sort_Slice_def entryLess_def fileEntry_def
        ctx_Background_def ctx_Done_def big_env_def path_defs isProblematicPath_def
        problematicPaths_def HasPrefix_def appendChild_def)
  from size_cap_retains_first_thousand [OF h(1,2,3,4), of "[]"]
    size_cap_retains_first_thousand [OF h(1,2,3,5), of "[]"]
    loops cfg
  show ?thesis
    by (simp add: length_bigListing take_bigListing filterHidden_big)
qed

section \<open>The depth ceiling\<close>









section \<open>The node count\<close>

lemma countNodes_sel: "countNodes node = 1 + sum_list (map countNodes (Children node))"
  by (cases node) simp

lemma countNodes_appendChild:
  "countNodes (appendChild node c) = countNodes node + countNodes c"
  by (simp add: countNodes_sel [of "appendChild node c"] countNodes_sel [of node])

lemma countNodes_leaf: "Children node = [] \<Longrightarrow> countNodes node = 1"
  by (simp add: countNodes_sel [of node])

text \<open>
  Where the configured depth limit cannot stop a node (\<open>MaxDepth\<close> negative, or at least
  51) and the context's error is one of the two the loop propagates, a scan that returns
  no error returns the number of nodes of the tree it built.
\<close>

lemma scan_count:
  "MaxDepth cfg < 0 \<or> 51 \<le> MaxDepth cfg \<Longrightarrow> Err ctx = Canceled \<or> Err ctx = DeadlineExceeded \<Longrightarrow>
   Children node = [] \<Longrightarrow> depth \<le> 51 \<Longrightarrow>
     (\<forall>e. resErr (scanNode os cfg ctx t node depth) = Some e \<longrightarrow> e = Err ctx) \<and>
     (resErr (scanNode os cfg ctx t node depth) = None \<longrightarrow>
        resCount (scanNode os cfg ctx t node depth) =
          int (countNodes (resNode (scanNode os cfg ctx t node depth))))"
  "MaxDepth cfg < 0 \<or> 51 \<le> MaxDepth cfg \<Longrightarrow> Err ctx = Canceled \<or> Err ctx = DeadlineExceeded \<Longrightarrow>
   depth \<le> 50 \<Longrightarrow>
     (\<forall>e. resErr (scanEntries os cfg ctx t node depth es cnt) = Some e \<longrightarrow> e = Err ctx) \<and>
     (resErr (scanEntries os cfg ctx t node depth es cnt) = None \<longrightarrow>
        resCount (scanEntries os cfg ctx t node depth es cnt) - cnt =
          int (countNodes (resNode (scanEntries os cfg ctx t node depth es cnt))) -
          int (countNodes node))"
proof (induction os cfg ctx t node depth and os cfg ctx t node depth es cnt
       rule: scanNode_scanEntries.induct)
  case (1 os cfg ctx t node depth)
  note leaf = countNodes_leaf [OF "1.prems"(3)]
  show ?case
  proof (cases "ctx_Done ctx t \<or> 50 < depth \<or> (\<exists>e. ReadDir os (Path node) = Inl e)")
    case True
    with leaf "1.prems"(1,4) show ?thesis
      by (auto simp: scanNode.simps [of os cfg ctx t node depth] resNode_def resErr_def resCount_def)
  next
    case False
    then obtain b where b: "ReadDir os (Path node) = Inr b"
      by (cases "ReadDir os (Path node)") auto
    let ?r = "scanEntries os cfg ctx (Suc t) node depth (prepareEntries cfg b) 1"
    have nolimit: "\<not> (0 \<le> MaxDepth cfg \<and> MaxDepth cfg < depth)"
      using "1.prems"(1,4) False by auto
    have "(\<forall>e. resErr ?r = Some e \<longrightarrow> e = Err ctx) \<and>
          (resErr ?r = None \<longrightarrow> resCount ?r - 1 = int (countNodes (resNode ?r)) - int (countNodes node))"
      using False nolimit b "1.prems" by (intro "1.IH") simp_all
    moreover have "scanNode os cfg ctx t node depth = ?r"
      using False nolimit b by (auto simp: scanNode.simps [of os cfg ctx t node depth])
    ultimately show ?thesis using leaf by simp
  qed
next
  case (2 os cfg ctx t node depth nodeCount)
  then show ?case by (simp add: resNode_def resErr_def resCount_def scanEntries.simps)
next
  case (3 os cfg ctx t node depth entry rest nodeCount)
  let ?p = "Join os (Path node) (de_Name entry)"
  note unf = scanEntries.simps(2) [of os cfg ctx t node depth entry rest nodeCount]
  note pr = "3.prems"
  show ?case
  proof (cases "ctx_Done ctx t")
    case True
    then show ?thesis by (simp add: resErr_def unf)
  next
    case nd: False
    show ?thesis
    proof (cases "isProblematicPath ?p")
      case True
      with nd "3.IH"(1) [OF nd True pr] show ?thesis by (simp add: unf)
    next
      case np: False
      show ?thesis
      proof (cases "de_IsDir entry")
        case False
        let ?c = "TreeNode ?p (de_Name entry) False []"
        from "3.IH"(5) [OF nd np False pr] nd np False show ?thesis
          by (simp add: unf countNodes_appendChild)
      next
        case True
        let ?r = "scanNode os cfg ctx (Suc t) (TreeNode ?p (de_Name entry) True []) (depth + 1)"
        obtain t' child cc err where r: "?r = (t', child, cc, err)"
          by (cases ?r) auto
        have ihc: "\<forall>e. err = Some e \<longrightarrow> e = Err ctx" "err = None \<longrightarrow> cc = int (countNodes child)"
          using "3.IH"(2) [OF nd np True pr(1,2)] r pr(3)
          by (simp_all add: resErr_def resCount_def resNode_def)
        show ?thesis
        proof (cases err)
          case None
          from "3.IH"(3) [OF nd np True r [symmetric] refl refl None pr] ihc None nd np True r
          show ?thesis
            by (simp add: unf countNodes_appendChild)
        next
          case (Some e)
          with ihc pr(2) have "e = Canceled \<or> e = DeadlineExceeded" "e = Err ctx" by auto
          with Some nd np True r show ?thesis
            by (simp add: unf resErr_def)
        qed
      qed
    qed
  qed
qed

lemma nodeCount_exact_without_depth_limit:
  assumes "MaxDepth cfg < 0 \<or> 51 \<le> MaxDepth cfg"
    and "Err ctx = Canceled \<or> Err ctx = DeadlineExceeded"
    and "ScanDirectory os cfg ctx path = Inr r"
  shows "NodeCount r = int (countNodes (Root r))"
  using scan_count(1) [OF assms(1,2), of "TreeNode path (Base os path) True []" 0 os 0]
    ScanDirectory_Inr [OF assms(3)]
  by simp

text \<open>
  C1 fails on the code. With \<open>MaxDepth = 0\<close> the scan of \<open>root\<close> appends the directory
  \<open>b\<close> to the root's children, and the call of \<open>scanNode\<close> for \<open>b\<close>, at depth 1, returns
  count 0: \<open>NodeCount\<close> is 2, and the returned tree has 3 nodes.
\<close>

theorem nodeCount_misses_depth_limited_directory:
  "ScanDirectory demo_env cfgDepth0 ctx_Background ''root'' =
     Inr \<lparr>RootPath = ''root'', TreeText = [], NodeCount = 2, Error = None,
          Root =
            TreeNode ''root'' ''root'' True
              [TreeNode ''root/b'' ''b'' True [],
               TreeNode ''root/a.log'' ''a.log'' False []]\<rparr> \<and>
   countNodes
     (TreeNode ''root'' ''root'' True
        [TreeNode ''root/b'' ''b'' True [],
         TreeNode ''root/a.log'' ''a.log'' False []]) = 3"
  by (simp add: demo_defs scan_defs path_defs cfgDepth0_def)

section \<open>Rendering\<close>

lemma render_builder_all:
  fixes dummy :: string
  shows "\<forall>b. renderNode b node prefix isRoot = b @ renderNode [] node prefix isRoot"
    and "\<forall>b. renderChildren b cs i n prefix isRoot = b @ renderChildren [] cs i n prefix isRoot"
proof (induction dummy node prefix isRoot and dummy cs i n prefix isRoot
       rule: renderNode_renderChildren.induct)
  case (1 builder path name isDir children prefix isRoot)
  then have ih: "renderChildren b children 0 (length children) prefix isRoot =
      b @ renderChildren [] children 0 (length children) prefix isRoot" for b
    by blast
  show ?case
  proof
    fix b
    show "renderNode b (TreeNode path name isDir children) prefix isRoot =
        b @ renderNode [] (TreeNode path name isDir children) prefix isRoot"
      using ih [of "b @ (if isDir then folderIcon else fileIcon) @ '' '' @
               (if isDir then name @ ''/'' else name) @ [CHR 0x0A]"]
        ih [of "(if isDir then folderIcon else fileIcon) @ '' '' @
               (if isDir then name @ ''/'' else name) @ [CHR 0x0A]"]
        ih [of b]
      by (cases isRoot) simp_all
  qed
next
  case (2 builder i n prefix isRoot)
  show ?case by simp
next
  case (3 builder child rest i n prefix isRoot)
  define step where "step b =
       (if isRoot \<and> i = 0 then renderNode (b @ prefix @ []) child [] False
        else if int i = int n - 1
          then renderNode (b @ prefix @ (treeLastBranch @ '' '')) child (prefix @ treeSpacing) False
        else renderNode (b @ prefix @ (treeBranch @ '' '')) child (prefix @ treeConnection) False)"
    for b
  have node: "renderNode b child p False = b @ renderNode [] child p False"
    if "p = [] \<and> isRoot \<and> i = 0 \<or> p = prefix @ treeSpacing \<and> \<not> (isRoot \<and> i = 0) \<and> int i = int n - 1
        \<or> p = prefix @ treeConnection \<and> \<not> (isRoot \<and> i = 0) \<and> int i \<noteq> int n - 1" for b p
    using that "3.IH"(1,2,3) by blast
  have step_b: "step b = b @ step []" for b
    unfolding step_def
    using node [of "[]" "b @ prefix @ []"] node [of "[]" "[] @ prefix @ []"]
      node [of "prefix @ treeSpacing" "b @ prefix @ (treeLastBranch @ '' '')"]
      node [of "prefix @ treeSpacing" "[] @ prefix @ (treeLastBranch @ '' '')"]
      node [of "prefix @ treeConnection" "b @ prefix @ (treeBranch @ '' '')"]
      node [of "prefix @ treeConnection" "[] @ prefix @ (treeBranch @ '' '')"]
    by (simp split: if_splits)
  have rest: "renderChildren b rest (Suc i) n prefix isRoot =
      b @ renderChildren [] rest (Suc i) n prefix isRoot" for b
    using "3.IH"(4) by blast
  have unf: "renderChildren b (child # rest) i n prefix isRoot =
      renderChildren (step b) rest (Suc i) n prefix isRoot" for b
    by (simp add: step_def)
  show ?case
  proof
    fix b
    have "renderChildren b (child # rest) i n prefix isRoot =
        step b @ renderChildren [] rest (Suc i) n prefix isRoot"
      by (simp only: unf rest [of "step b"])
    also have "\<dots> = b @ (step [] @ renderChildren [] rest (Suc i) n prefix isRoot)"
      by (subst step_b) simp
    also have "step [] @ renderChildren [] rest (Suc i) n prefix isRoot =
        renderChildren [] (child # rest) i n prefix isRoot"
      by (simp only: unf rest [of "step []"])
    finally show "renderChildren b (child # rest) i n prefix isRoot =
        b @ renderChildren [] (child # rest) i n prefix isRoot" .
  qed
qed

lemma render_builder:
  "renderNode builder node prefix isRoot = builder @ renderNode [] node prefix isRoot"
  "renderChildren builder cs i n prefix isRoot = builder @ renderChildren [] cs i n prefix isRoot"
  using render_builder_all by blast+

lemma renderChildren_closed:
  "renderChildren [] cs i n prefix isRoot =
     concat (map (\<lambda>j. prefix @ connector isRoot (i + j) n @
                        renderNode [] (cs ! j) (nextPrefix isRoot prefix (i + j) n) False)
               [0..<length cs])"
proof (induction cs arbitrary: i)
  case Nil
  show ?case by simp
next
  case (Cons c cs)
  have "renderChildren [] (c # cs) i n prefix isRoot =
      renderChildren (prefix @ connector isRoot i n @
          renderNode [] c (nextPrefix isRoot prefix i n) False) cs (Suc i) n prefix isRoot"
    using render_builder(1) [of "prefix @ connector isRoot i n" c]
    by (auto simp: connector_def nextPrefix_def nextPrefix_uniform_def)
  also have "\<dots> = (prefix @ connector isRoot i n @
          renderNode [] c (nextPrefix isRoot prefix i n) False) @
        renderChildren [] cs (Suc i) n prefix isRoot"
    by (rule render_builder(2))
  finally have eq: "renderChildren [] (c # cs) i n prefix isRoot =
      (prefix @ connector isRoot i n @ renderNode [] c (nextPrefix isRoot prefix i n) False) @
      renderChildren [] cs (Suc i) n prefix isRoot" .
  have idx: "[0..<length (c # cs)] = 0 # map Suc [0..<length cs]"
    by (simp add: upt_conv_Cons map_Suc_upt del: upt_Suc)
  show ?case
    unfolding eq idx by (simp add: Cons.IH [of "Suc i"] o_def)
qed

lemma nodeLine_render:
  "renderNode builder node prefix isRoot =
     renderChildren (if isRoot then builder else builder @ nodeLine node)
       (Children node) 0 (length (Children node)) prefix isRoot"
  by (cases node) (simp add: nodeLine_def)

text \<open>
  C8 as amended. \<open>renderNode\<close> writes the line of the node (nothing for the root) and
  then, for the child with index \<open>j\<close> among \<open>n\<close>, the current prefix, the connector and
  the rendering of the child under its own prefix. The connector is empty for the first
  child of the root, \<open>treeLastBranch\<close> and a space for any other last child,
  \<open>treeBranch\<close> and a space otherwise. The prefix for a child's descendants is empty for
  the first child of the root; for every other child it is the current prefix extended
  by \<open>treeSpacing\<close> when the child is the last one and by \<open>treeConnection\<close> otherwise.
\<close>

theorem render_connectors_and_prefixes:
  "renderNode builder node prefix isRoot =
     builder @ (if isRoot then [] else nodeLine node) @
     concat (map (\<lambda>j. prefix @ connector isRoot j (length (Children node)) @
                        renderNode [] (Children node ! j)
                          (nextPrefix isRoot prefix j (length (Children node))) False)
               [0..<length (Children node)])"
  using renderChildren_closed [of "Children node" 0 "length (Children node)" prefix isRoot]
    render_builder(2) [of "if isRoot then builder else builder @ nodeLine node" "Children node"
      0 "length (Children node)" prefix isRoot]
  by (simp add: nodeLine_render [of builder node prefix isRoot])

lemmas render_defs = nodeLine_def connector_def nextPrefix_def nextPrefix_uniform_def
  folderIcon_def fileIcon_def treeBranch_def treeLastBranch_def treeSpacing_def treeConnection_def

theorem render_connectors_and_prefixes_witness:
  "RenderTree (Some
       (TreeNode ''root'' ''root'' True
          [TreeNode ''root/b'' ''b'' True
             [TreeNode ''root/b/a.txt'' ''a.txt'' False [],
              TreeNode ''root/b/z.txt'' ''z.txt'' False []],
           TreeNode ''root/a.log'' ''a.log'' False []])) =
     ''File Tree for: root'' @ [CHR 0x0A] @ replicate 50 (CHR ''='') @ [CHR 0x0A, CHR 0x0A] @
     folderIcon @ '' b/'' @ [CHR 0x0A] @
     treeBranch @ '' '' @ fileIcon @ '' a.txt'' @ [CHR 0x0A] @
     treeLastBranch @ '' '' @ fileIcon @ '' z.txt'' @ [CHR 0x0A] @
     treeLastBranch @ '' '' @ fileIcon @ '' a.log'' @ [CHR 0x0A]"
  using render_connectors_and_prefixes
    [of "''File Tree for: root'' @ [CHR 0x0A] @ replicate 50 (CHR ''='') @ [CHR 0x0A, CHR 0x0A]"
      "TreeNode ''root'' ''root'' True
          [TreeNode ''root/b'' ''b'' True
             [TreeNode ''root/b/a.txt'' ''a.txt'' False [],
              TreeNode ''root/b/z.txt'' ''z.txt'' False []],
           TreeNode ''root/a.log'' ''a.log'' False []]" "[]" True]
  by (simp add: RenderTree_def render_defs)

text \<open>
  As C8 is stated, the descendants of every child are indented by the current prefix
  extended with the continuation of that child. The root \<open>r\<close> below has the directory
  \<open>b\<close>, holding the file \<open>x\<close>, as its first child and the file \<open>c\<close> as its last one. \<open>b\<close>
  is not a last child, so the line of \<open>x\<close> would start with \<open>treeConnection\<close>; the code
  writes it with the empty prefix.
\<close>

theorem render_first_child_counterexample:
  "renderNode []
     (TreeNode ''r'' ''r'' True
        [TreeNode ''r/b'' ''b'' True [TreeNode ''r/b/x'' ''x'' False []],
         TreeNode ''r/c'' ''c'' False []]) [] True =
     folderIcon @ '' b/'' @ [CHR 0x0A] @
     treeLastBranch @ '' '' @ fileIcon @ '' x'' @ [CHR 0x0A] @
     treeLastBranch @ '' '' @ fileIcon @ '' c'' @ [CHR 0x0A] \<and>
   renderNode []
     (TreeNode ''r'' ''r'' True
        [TreeNode ''r/b'' ''b'' True [TreeNode ''r/b/x'' ''x'' False []],
         TreeNode ''r/c'' ''c'' False []]) [] True \<noteq>
     folderIcon @ '' b/'' @ [CHR 0x0A] @
     nextPrefix_uniform [] 0 2 @ treeLastBranch @ '' '' @ fileIcon @ '' x'' @ [CHR 0x0A] @
     treeLastBranch @ '' '' @ fileIcon @ '' c'' @ [CHR 0x0A]"
  by (simp add: render_defs)

section \<open>A root path that contains a reserved substring\<close>





















end
